theory Spec2Isabelle
  imports Complex_Main "HOL-Library.Multiset"
begin

section \<open>Dates, and the functions of date-fns and of the language that are used\<close>

text \<open>
  A JavaScript \<open>Date\<close> is modelled by its time value: an integer number of
  milliseconds. The calendar functions (\<open>startOfDay\<close>, \<open>setHours\<close>, \<open>getDay\<close>, ...)
  work on local civil time; the model reads the time value as local time in a zone
  without daylight-saving transitions, so that a day has 86400000 milliseconds.
  Invalid dates (time value NaN) are outside the model.
\<close>

type_synonym Date = int

definition millisecondsInMinute :: int where
  "millisecondsInMinute = 60000"

definition millisecondsInHour :: int where
  "millisecondsInHour = 3600000"

definition millisecondsInDay :: int where
  "millisecondsInDay = 86400000"

record Interval =
  iv_start :: Date
  iv_end :: Date

text \<open>
  \<open>areIntervalsOverlapping\<close> of date-fns 3 (the version the design document names), with
  the default option \<open>inclusive = false\<close>: each interval is normalised by sorting its two
  ends, then the test is strict on both sides.
\<close>

definition areIntervalsOverlapping :: "Interval \<Rightarrow> Interval \<Rightarrow> bool" where
  "areIntervalsOverlapping intervalLeft intervalRight =
     (let leftStartTime = min (iv_start intervalLeft) (iv_end intervalLeft);
          leftEndTime = max (iv_start intervalLeft) (iv_end intervalLeft);
          rightStartTime = min (iv_start intervalRight) (iv_end intervalRight);
          rightEndTime = max (iv_start intervalRight) (iv_end intervalRight)
      in leftStartTime < rightEndTime \<and> rightStartTime < leftEndTime)"

text \<open>
  The local-time readers: hour of the day, minute of the hour, and day of the week
  (0 is Sunday; 1 January 1970 was a Thursday).
\<close>

definition getHours :: "Date \<Rightarrow> int" where
  "getHours d = (d mod millisecondsInDay) div millisecondsInHour"

definition getMinutes :: "Date \<Rightarrow> int" where
  "getMinutes d = (d mod millisecondsInHour) div millisecondsInMinute"

definition getDay :: "Date \<Rightarrow> int" where
  "getDay d = (d div millisecondsInDay + 4) mod 7"

text \<open>
  \<open>differenceInMinutes\<close>: the difference in milliseconds divided by 60000 and rounded
  with the default method \<open>trunc\<close>, that is toward zero.
\<close>

definition differenceInMinutes :: "Date \<Rightarrow> Date \<Rightarrow> int" where
  "differenceInMinutes dateLeft dateRight =
     (let diff = dateLeft - dateRight
      in if 0 \<le> diff then diff div millisecondsInMinute
         else - ((- diff) div millisecondsInMinute))"

definition addMinutes :: "Date \<Rightarrow> int \<Rightarrow> Date" where
  "addMinutes d amount = d + amount * millisecondsInMinute"

definition startOfDay :: "Date \<Rightarrow> Date" where
  "startOfDay d = d - d mod millisecondsInDay"

text \<open>
  \<open>setHours\<close> and \<open>setMinutes\<close> replace the hour of the day and the minute of the hour,
  keeping the smaller units; a value out of range carries over, as \<open>Date.setHours\<close> does.
\<close>

definition setHours :: "Date \<Rightarrow> int \<Rightarrow> Date" where
  "setHours d hours = d + (hours - getHours d) * millisecondsInHour"

definition setMinutes :: "Date \<Rightarrow> int \<Rightarrow> Date" where
  "setMinutes d minutes = d + (minutes - getMinutes d) * millisecondsInMinute"

definition addDays :: "Date \<Rightarrow> int \<Rightarrow> Date" where
  "addDays d amount = d + amount * millisecondsInDay"

definition isBefore :: "Date \<Rightarrow> Date \<Rightarrow> bool" where
  "isBefore d dateToCompare = (d < dateToCompare)"

definition isAfter :: "Date \<Rightarrow> Date \<Rightarrow> bool" where
  "isAfter d dateToCompare = (d > dateToCompare)"

text \<open>\<open>isWithinInterval\<close> of date-fns 3: the ends are sorted, both are included.\<close>

definition isWithinInterval :: "Date \<Rightarrow> Interval \<Rightarrow> bool" where
  "isWithinInterval d interval =
     (let startTime = min (iv_start interval) (iv_end interval);
          endTime = max (iv_start interval) (iv_end interval)
      in d \<ge> startTime \<and> d \<le> endTime)"

text \<open>
  \<open>Math.round\<close>: the nearest integer, a fraction of exactly one half going up. The
  argument is an exact rational here; the source computes it in double precision.
\<close>

definition Math_round :: "rat \<Rightarrow> int" where
  "Math_round x = \<lfloor>x + 1 / 2\<rfloor>"

text \<open>\<open>xs.slice(-n)\<close>: the last \<open>n\<close> elements, all of them when there are fewer.\<close>

definition slice_last :: "nat \<Rightarrow> 'a list \<Rightarrow> 'a list" where
  "slice_last n xs = drop (length xs - n) xs"

text \<open>\<open>xs.findIndex(p)\<close>: the index of the first element satisfying \<open>p\<close>; \<open>None\<close> is -1.\<close>

fun findIndex :: "('a \<Rightarrow> bool) \<Rightarrow> 'a list \<Rightarrow> nat option" where
  "findIndex p [] = None"
| "findIndex p (x # xs) =
     (if p x then Some 0 else map_option Suc (findIndex p xs))"

section \<open>Events\<close>

datatype EventCategory = Work | Personal | Health | Social | Learning | Other

text \<open>
  \<open>CalendarEvent\<close> of \<open>types/index.ts\<close>, with the fields the scheduler and the habit
  learner read. \<open>allDay\<close> and \<open>category\<close> are optional in the source: \<open>None\<close> is
  \<open>undefined\<close>.
\<close>

record CalendarEvent =
  ev_id :: string
  ev_title :: string
  ev_start :: Date
  ev_end :: Date
  ev_allDay :: "bool option"
  ev_category :: "EventCategory option"

text \<open>The truthiness test \<open>e.allDay\<close>: \<open>undefined\<close> and \<open>false\<close> are falsy.\<close>

definition isAllDay :: "CalendarEvent \<Rightarrow> bool" where
  "isAllDay e = (ev_allDay e = Some True)"

section \<open>Conflict detection (\<open>scheduler/conflicts.ts\<close>)\<close>

subsection \<open>\<open>detectConflicts\<close>\<close>

datatype ConflictType = Overlap | BackToBack | Overbooking

datatype Severity = Low | Medium | High

record Conflict =
  c_id :: string
  c_events :: "string list"
  c_type :: ConflictType
  c_severity :: Severity

text \<open>
  \<open>conflictMap\<close> is a \<open>Map\<close> from an event id to a \<open>Set\<close> of event ids. Both iterate in
  insertion order, so the map is the list of its entries in the order the keys were first
  set, and a set is the list of its members in the order they were first added.
\<close>

type_synonym ConflictMap = "(string \<times> string list) list"

definition map_has :: "ConflictMap \<Rightarrow> string \<Rightarrow> bool" where
  "map_has m k = (k \<in> fst ` set m)"

definition map_get :: "ConflictMap \<Rightarrow> string \<Rightarrow> string list option" where
  "map_get m k = map_of m k"

text \<open>\<open>m.set(k, v)\<close>: a present key keeps its place, an absent one goes to the end.\<close>

definition map_set :: "ConflictMap \<Rightarrow> string \<Rightarrow> string list \<Rightarrow> ConflictMap" where
  "map_set m k v =
     (if map_has m k then map (\<lambda>(k', v'). if k' = k then (k', v) else (k', v')) m
      else m @ [(k, v)])"

definition set_add :: "string list \<Rightarrow> string \<Rightarrow> string list" where
  "set_add s x = (if x \<in> set s then s else s @ [x])"

text \<open>\<open>m.get(k)!.add(x)\<close>: the set stored under \<open>k\<close> is changed in place.\<close>

definition map_get_add :: "ConflictMap \<Rightarrow> string \<Rightarrow> string \<Rightarrow> ConflictMap" where
  "map_get_add m k x = map (\<lambda>(k', s). if k' = k then (k', set_add s x) else (k', s)) m"

text \<open>The body of the \<open>if\<close> for an overlapping pair.\<close>

definition track_conflict :: "CalendarEvent \<Rightarrow> CalendarEvent \<Rightarrow> ConflictMap \<Rightarrow> ConflictMap" where
  "track_conflict eventA eventB m =
     (let m1 = (if \<not> map_has m (ev_id eventA) then map_set m (ev_id eventA) [] else m);
          m2 = (if \<not> map_has m1 (ev_id eventB) then map_set m1 (ev_id eventB) [] else m1);
          m3 = map_get_add m2 (ev_id eventA) (ev_id eventB)
      in map_get_add m3 (ev_id eventB) (ev_id eventA))"

text \<open>
  The two nested loops over \<open>i\<close> and \<open>j > i\<close>: the outer loop takes the events of
  \<open>sortedEvents\<close> in turn, the inner loop pairs the event with each later one.
\<close>

fun inner_loop :: "CalendarEvent \<Rightarrow> CalendarEvent list \<Rightarrow> ConflictMap \<Rightarrow> ConflictMap" where
  "inner_loop eventA [] m = m"
| "inner_loop eventA (eventB # later) m =
     inner_loop eventA later
       (if areIntervalsOverlapping
             \<lparr>iv_start = ev_start eventA, iv_end = ev_end eventA\<rparr>
             \<lparr>iv_start = ev_start eventB, iv_end = ev_end eventB\<rparr>
        then track_conflict eventA eventB m
        else m)"

fun outer_loop :: "CalendarEvent list \<Rightarrow> ConflictMap \<Rightarrow> ConflictMap" where
  "outer_loop [] m = m"
| "outer_loop (eventA # later) m = outer_loop later (inner_loop eventA later m)"

text \<open>
  The loop \<open>for (const relatedId of related)\<close> inside the traversal; the state is
  \<open>allRelatedEvents\<close> (a set, in insertion order) and \<open>queue\<close>.
\<close>

fun related_loop :: "string list \<Rightarrow> string list \<times> string list \<Rightarrow> string list \<times> string list" where
  "related_loop [] st = st"
| "related_loop (relatedId # rest) (allRelatedEvents, queue) =
     (if relatedId \<notin> set allRelatedEvents
      then related_loop rest (allRelatedEvents @ [relatedId], queue @ [relatedId])
      else related_loop rest (allRelatedEvents, queue))"

definition map_ids :: "ConflictMap \<Rightarrow> string set" where
  "map_ids m = (\<Union>(k, s) \<in> set m. set s)"

lemma related_loop_measure:
  assumes "related_loop related (a, q) = (a', q')" and "set related \<subseteq> U" and "finite U"
  shows "2 * card (U - set a') + length q' \<le> 2 * card (U - set a) + length q"
  using assms
proof (induction related arbitrary: a q)
  case Nil
  then show ?case by simp
next
  case (Cons r rest)
  show ?case
  proof (cases "r \<in> set a")
    case True
    with Cons show ?thesis by simp
  next
    case False
    have step: "related_loop rest (a @ [r], q @ [r]) = (a', q')"
      using Cons.prems(1) False by simp
    have ih: "2 * card (U - set a') + length q'
                \<le> 2 * card (U - set (a @ [r])) + length (q @ [r])"
      using Cons.IH [OF step] Cons.prems by simp
    have "r \<in> U - set a"
      using Cons.prems(2) False by simp
    moreover have "U - set (a @ [r]) = (U - set a) - {r}"
      by auto
    moreover have "finite (U - set a)"
      using Cons.prems(3) by simp
    ultimately have "card (U - set (a @ [r])) + 1 = card (U - set a)"
      by (metis Suc_eq_plus1 card_Suc_Diff1)
    with ih show ?thesis by simp
  qed
qed

text \<open>
  The \<open>while (queue.length > 0)\<close> loop: \<open>queue.shift()\<close> takes the head; an id with no
  entry in the map has nothing to add.
\<close>

function traverse :: "ConflictMap \<Rightarrow> string list \<Rightarrow> string list \<Rightarrow> string list" where
  "traverse m [] allRelatedEvents = allRelatedEvents"
| "traverse m (currentId # queue) allRelatedEvents =
     (case map_get m currentId of
        None \<Rightarrow> traverse m queue allRelatedEvents
      | Some related \<Rightarrow>
          (case related_loop related (allRelatedEvents, queue) of
             (allRelatedEvents', queue') \<Rightarrow> traverse m queue' allRelatedEvents'))"
  by pat_completeness auto
termination
proof (relation "measure (\<lambda>(m, q, a). 2 * card (map_ids m - set a) + length q)")
  show "wf (measure (\<lambda>(m, q, a). 2 * card (map_ids m - set a) + length q))"
    by simp
next
  fix m :: ConflictMap and currentId :: string and queue allRelatedEvents :: "string list"
  show "((m, queue, allRelatedEvents), (m, currentId # queue, allRelatedEvents))
          \<in> measure (\<lambda>(m, q, a). 2 * card (map_ids m - set a) + length q)"
    by simp
next
  fix m :: ConflictMap and currentId :: string
    and queue allRelatedEvents related a' q' :: "string list"
  assume get: "map_get m currentId = Some related"
    and pair: "(a', q') = related_loop related (allRelatedEvents, queue)"
  have sub: "set related \<subseteq> map_ids m"
    using get by (force simp: map_get_def map_ids_def dest: map_of_SomeD)
  have fin: "finite (map_ids m)"
    by (auto simp: map_ids_def)
  have "related_loop related (allRelatedEvents, queue) = (a', q')"
    using pair by simp
  from related_loop_measure [OF this sub fin]
  show "((m, q', a'), (m, currentId # queue, allRelatedEvents))
          \<in> measure (\<lambda>(m, q, a). 2 * card (map_ids m - set a) + length q)"
    by simp
qed

text \<open>Decimal digits of a natural number, for the template string of the conflict id.\<close>

definition digit_char :: "nat \<Rightarrow> char" where
  "digit_char d = ''0123456789'' ! d"

function string_of_nat :: "nat \<Rightarrow> string" where
  "string_of_nat n =
     (if n < 10 then [digit_char n] else string_of_nat (n div 10) @ [digit_char (n mod 10)])"
  by pat_completeness auto
termination
  by (relation "measure id") auto

declare string_of_nat.simps [simp del]

text \<open>
  The loop over the entries of \<open>conflictMap\<close>; the state is \<open>processedEvents\<close> and
  \<open>conflicts\<close>. \<open>now k\<close> is the value of \<open>Date.now()\<close> when the conflict number \<open>k\<close> is
  built.
\<close>

fun group_loop ::
  "(nat \<Rightarrow> nat) \<Rightarrow> ConflictMap \<Rightarrow> (string \<times> string list) list \<Rightarrow> string set
     \<Rightarrow> Conflict list \<Rightarrow> Conflict list" where
  "group_loop now m [] processedEvents conflicts = conflicts"
| "group_loop now m ((eventId, conflictingIds) # rest) processedEvents conflicts =
     (if eventId \<in> processedEvents then group_loop now m rest processedEvents conflicts
      else
        (let allRelatedEvents = traverse m [eventId] [eventId];
             processedEvents' = processedEvents \<union> set allRelatedEvents;
             eventCount = length allRelatedEvents;
             severity = (if eventCount > 3 then High
                         else if eventCount > 2 then Medium else Low)
         in group_loop now m rest processedEvents'
              (conflicts @
                 [\<lparr>c_id = ''conflict-'' @ string_of_nat (now (length conflicts)) @ ''-''
                            @ string_of_nat (length conflicts),
                   c_events = allRelatedEvents,
                   c_type = (if eventCount > 2 then Overbooking else Overlap),
                   c_severity = severity\<rparr>])))"

definition detectConflicts :: "(nat \<Rightarrow> nat) \<Rightarrow> CalendarEvent list \<Rightarrow> Conflict list" where
  "detectConflicts now events =
     (let sortedEvents = sort_key ev_start (filter (\<lambda>e. \<not> isAllDay e) events);
          conflictMap = outer_loop sortedEvents []
      in group_loop now conflictMap conflictMap {} [])"

subsection \<open>\<open>hasConflict\<close>\<close>

text \<open>
  The loop over \<open>existingEvents\<close>: an all-day event is skipped (\<open>continue\<close>), the first
  overlapping event returns \<open>true\<close>, the end of the list returns \<open>false\<close>.
\<close>

fun hasConflict :: "Interval \<Rightarrow> CalendarEvent list \<Rightarrow> bool" where
  "hasConflict newEvent [] = False"
| "hasConflict newEvent (event # rest) =
     (if isAllDay event then hasConflict newEvent rest
      else if areIntervalsOverlapping
                \<lparr>iv_start = iv_start newEvent, iv_end = iv_end newEvent\<rparr>
                \<lparr>iv_start = ev_start event, iv_end = ev_end event\<rparr>
           then True
           else hasConflict newEvent rest)"

section \<open>Habit learning (\<open>storage/habits.ts\<close>)\<close>

datatype FrequencyType = Daily | Weekly | Monthly

record TimeSlot =
  dayOfWeek :: "int option"
  hour :: int
  minute :: int

text \<open>
  \<open>HabitPattern\<close> of \<open>types/index.ts\<close>. \<open>eventCount\<close> is a count of learned events
  and is a natural number in the model.
\<close>

record HabitPattern =
  h_id :: string
  h_category :: EventCategory
  preferredTimes :: "TimeSlot list"
  avgDuration :: int
  frequency :: FrequencyType
  lastOccurrences :: "Date list"
  eventCount :: nat
  createdAt :: Date
  updatedAt :: Date

subsection \<open>The habit table\<close>

text \<open>
  The habit table \<open>db.habits\<close> is declared in \<open>db.ts\<close> as a table of the Dexie library
  with the schema \<open>id, category, frequency, updatedAt\<close>: \<open>id\<close> is the primary key and
  \<open>category\<close> is indexed. The library is not part of the repository; its operations that
  the habit functions call (\<open>get\<close>, \<open>where\<close> with \<open>equals\<close> and \<open>first\<close>, \<open>add\<close>, \<open>put\<close>) are
  modelled on the list of the table's rows: a row is read by id or by category, added, or
  replaced (upserted), and adding a row whose id is already a key fails. The conversions
  \<open>toStoredHabit\<close> and \<open>fromStoredHabit\<close> of \<open>db.ts\<close> write the dates as ISO strings and read
  them back; together they are the identity on the modelled fields.
\<close>

type_synonym HabitTable = "HabitPattern list"

datatype error = ConstraintError

definition table_get :: "string \<Rightarrow> HabitTable \<Rightarrow> HabitPattern option" where
  "table_get i t = find (\<lambda>h. h_id h = i) t"

definition table_where_category_first :: "EventCategory \<Rightarrow> HabitTable \<Rightarrow> HabitPattern option" where
  "table_where_category_first c t = find (\<lambda>h. h_category h = c) t"

definition table_add :: "HabitPattern \<Rightarrow> HabitTable \<Rightarrow> error + HabitTable" where
  "table_add h t = (if h_id h \<in> h_id ` set t then Inl ConstraintError else Inr (t @ [h]))"

definition table_put :: "HabitPattern \<Rightarrow> HabitTable \<Rightarrow> HabitTable" where
  "table_put h t =
     (if h_id h \<in> h_id ` set t then map (\<lambda>x. if h_id x = h_id h then h else x) t
      else t @ [h])"

subsection \<open>The operations\<close>

text \<open>
  The operations are asynchronous in the source and run one after the other; the model
  passes the table explicitly. The clock (\<open>new Date()\<close>) and the generated id
  (\<open>generateId()\<close>) are inputs.
\<close>

definition createHabit ::
  "Date \<Rightarrow> string \<Rightarrow> HabitPattern \<Rightarrow> HabitTable \<Rightarrow> error + (HabitPattern \<times> HabitTable)" where
  "createHabit now newId habit t =
     (let newHabit = habit\<lparr>h_id := newId, createdAt := now, updatedAt := now\<rparr>
      in case table_add newHabit t of
           Inl e \<Rightarrow> Inl e
         | Inr t' \<Rightarrow> Inr (newHabit, t'))"

definition getHabit :: "string \<Rightarrow> HabitTable \<Rightarrow> HabitPattern option" where
  "getHabit i t = table_get i t"

definition getHabitByCategory :: "EventCategory \<Rightarrow> HabitTable \<Rightarrow> HabitPattern option" where
  "getHabitByCategory category t = table_where_category_first category t"

text \<open>
  \<open>updateHabit\<close>: the partial record \<open>updates\<close> is a function that overwrites the fields
  it carries; the id and \<open>updatedAt\<close> are set after it.
\<close>

definition updateHabit ::
  "Date \<Rightarrow> string \<Rightarrow> (HabitPattern \<Rightarrow> HabitPattern) \<Rightarrow> HabitTable
     \<Rightarrow> HabitPattern option \<times> HabitTable" where
  "updateHabit now i updates t =
     (case table_get i t of
        None \<Rightarrow> (None, t)
      | Some existing \<Rightarrow>
          (let updated = (updates existing)\<lparr>h_id := i, updatedAt := now\<rparr>
           in (Some updated, table_put updated t)))"

definition updatePreferredTimes :: "TimeSlot list \<Rightarrow> TimeSlot \<Rightarrow> TimeSlot list" where
  "updatePreferredTimes existing newSlot =
     (case findIndex (\<lambda>slot. dayOfWeek slot = dayOfWeek newSlot
                            \<and> \<bar>hour slot - hour newSlot\<bar> \<le> 1) existing of
        Some similarIndex \<Rightarrow>
          (let similar = existing ! similarIndex;
               avgHour = Math_round (of_int (hour similar + hour newSlot) / 2);
               avgMinute = Math_round (of_int (minute similar + minute newSlot) / 2)
           in existing[similarIndex := similar\<lparr>hour := avgHour, minute := avgMinute\<rparr>])
      | None \<Rightarrow> slice_last 5 (existing @ [newSlot]))"

text \<open>\<open>event.category || 'other'\<close>\<close>

definition category_or_other :: "CalendarEvent \<Rightarrow> EventCategory" where
  "category_or_other event = (case ev_category event of None \<Rightarrow> Other | Some c \<Rightarrow> c)"

text \<open>
  \<open>learnFromEvent\<close> returns what \<open>updateHabit\<close> or \<open>createHabit\<close> returns, with the table
  after the call; \<open>Inl\<close> is the rejection of \<open>createHabit\<close>.
\<close>

definition learnFromEvent ::
  "Date \<Rightarrow> string \<Rightarrow> CalendarEvent \<Rightarrow> HabitTable
     \<Rightarrow> error + (HabitPattern option \<times> HabitTable)" where
  "learnFromEvent now newId event t =
     (let category = category_or_other event;
          eventTimeSlot = \<lparr>dayOfWeek = Some (getDay (ev_start event)),
                           hour = getHours (ev_start event),
                           minute = getMinutes (ev_start event)\<rparr>;
          duration = differenceInMinutes (ev_end event) (ev_start event)
      in case getHabitByCategory category t of
           Some habit \<Rightarrow>
             (let newOccurrences = slice_last 10 (lastOccurrences habit @ [ev_start event]);
                  newPreferredTimes = updatePreferredTimes (preferredTimes habit) eventTimeSlot;
                  newAvgDuration = Math_round
                    (of_int (avgDuration habit * int (eventCount habit) + duration)
                       / of_int (int (eventCount habit) + 1))
              in Inr (updateHabit now (h_id habit)
                        (\<lambda>h. h\<lparr>preferredTimes := newPreferredTimes,
                                avgDuration := newAvgDuration,
                                lastOccurrences := newOccurrences,
                                eventCount := eventCount habit + 1\<rparr>) t))
         | None \<Rightarrow>
             (case createHabit now newId
                     \<lparr>h_id = [], h_category = category,
                      preferredTimes = [eventTimeSlot],
                      avgDuration = duration,
                      frequency = Weekly,
                      lastOccurrences = [ev_start event],
                      eventCount = 1,
                      createdAt = now, updatedAt = now\<rparr> t of
                Inl e \<Rightarrow> Inl e
              | Inr (h, t') \<Rightarrow> Inr (Some h, t')))"

text \<open>
  A run of \<open>learnFromEvent\<close> calls, each with its clock value, generated id and event; a
  rejected call ends the run.
\<close>

fun learnFromEvents ::
  "(Date \<times> string \<times> CalendarEvent) list \<Rightarrow> HabitTable \<Rightarrow> error + HabitTable" where
  "learnFromEvents [] t = Inr t"
| "learnFromEvents ((now, newId, event) # calls) t =
     (case learnFromEvent now newId event t of
        Inl e \<Rightarrow> Inl e
      | Inr (_, t') \<Rightarrow> learnFromEvents calls t')"

text \<open>
  \<open>analyzeHabitFrequency\<close>: the occurrences are sorted ascending, the gaps between
  neighbours are taken in days and averaged.
\<close>

fun gaps_in_days :: "Date list \<Rightarrow> rat list" where
  "gaps_in_days (a # b # rest) =
     (of_int (b - a) / of_int millisecondsInDay) # gaps_in_days (b # rest)"
| "gaps_in_days _ = []"

definition analyzeHabitFrequency :: "string \<Rightarrow> HabitTable \<Rightarrow> FrequencyType" where
  "analyzeHabitFrequency habitId t =
     (case getHabit habitId t of
        None \<Rightarrow> Weekly
      | Some habit \<Rightarrow>
          if length (lastOccurrences habit) < 2 then Weekly
          else
            (let occurrences = sort (lastOccurrences habit);
                 gaps = gaps_in_days occurrences;
                 avgGap = sum_list gaps / of_nat (length gaps)
             in if avgGap \<le> 3 / 2 then Daily
                else if avgGap \<le> 10 then Weekly
                else Monthly))"

text \<open>\<open>xs.find(p)\<close> is \<^const>\<open>find\<close>; \<open>None\<close> is \<open>undefined\<close>, and \<open>null\<close> in a result.\<close>

definition getSuggestedTimeForCategory ::
  "EventCategory \<Rightarrow> Date \<Rightarrow> HabitTable \<Rightarrow> TimeSlot option" where
  "getSuggestedTimeForCategory category date t =
     (case getHabitByCategory category t of
        None \<Rightarrow> None
      | Some habit \<Rightarrow>
          if length (preferredTimes habit) = 0 then None
          else
            (let dow = getDay date
             in case find (\<lambda>slot. dayOfWeek slot = Some dow) (preferredTimes habit) of
                  Some matchingSlot \<Rightarrow> Some matchingSlot
                | None \<Rightarrow> Some (preferredTimes habit ! 0)))"

text \<open>\<open>habit?.avgDuration || 60\<close>: 60 when there is no habit and when its average is 0.\<close>

definition getAvgDurationForCategory :: "EventCategory \<Rightarrow> HabitTable \<Rightarrow> int" where
  "getAvgDurationForCategory category t =
     (case getHabitByCategory category t of
        None \<Rightarrow> 60
      | Some habit \<Rightarrow> if avgDuration habit = 0 then 60 else avgDuration habit)"

section \<open>Free slots and suggestions (\<open>scheduler/suggestions.ts\<close>)\<close>

subsection \<open>Working hours\<close>

text \<open>
  \<open>s.split(':')\<close>, and \<open>Number\<close> on a string of decimal digits (the empty string is 0).
  On any other string \<open>Number\<close> is outside the model (\<open>None\<close>): the settings hold the
  hours in the format \<open>HH:mm\<close>.
\<close>

fun split_colon :: "string \<Rightarrow> string list" where
  "split_colon [] = [] # []"
| "split_colon (c # cs) =
     (if c = CHR '':'' then [] # split_colon cs
      else case split_colon cs of
             w # ws \<Rightarrow> (c # w) # ws
           | [] \<Rightarrow> [c] # [])"

definition digit_value :: "char \<Rightarrow> int option" where
  "digit_value c = map_option int (findIndex (\<lambda>d. d = c) ''0123456789'')"

fun Number_digits :: "int \<Rightarrow> string \<Rightarrow> int option" where
  "Number_digits acc [] = Some acc"
| "Number_digits acc (c # cs) =
     (case digit_value c of
        None \<Rightarrow> None
      | Some v \<Rightarrow> Number_digits (10 * acc + v) cs)"

definition Number :: "string \<Rightarrow> int option" where
  "Number s = Number_digits 0 s"

text \<open>\<open>const [hour, min] = s.split(':').map(Number)\<close>\<close>

definition split_hour_min :: "string \<Rightarrow> (int \<times> int) option" where
  "split_hour_min s =
     (case map Number (split_colon s) of
        Some h # Some m # _ \<Rightarrow> Some (h, m)
      | _ \<Rightarrow> None)"

record WorkingHours =
  wh_start :: string
  wh_end :: string

subsection \<open>\<open>findFreeSlots\<close>\<close>

record FreeSlot =
  fs_start :: Date
  fs_end :: Date
  fs_duration :: int

text \<open>
  The loop over the events of the day; the state is the cursor \<open>slotStart\<close> and the list
  \<open>freeSlots\<close>.
\<close>

fun events_loop ::
  "Date \<Rightarrow> Date \<Rightarrow> int \<Rightarrow> CalendarEvent list \<Rightarrow> Date \<times> FreeSlot list
     \<Rightarrow> Date \<times> FreeSlot list" where
  "events_loop dayStart dayEnd minDuration [] st = st"
| "events_loop dayStart dayEnd minDuration (event # rest) (slotStart, freeSlots) =
     (let eventStart = ev_start event;
          eventEnd = ev_end event;
          effectiveStart = (if isBefore eventStart dayStart then dayStart else eventStart);
          effectiveEnd = (if isAfter eventEnd dayEnd then dayEnd else eventEnd);
          freeSlots' =
            (if isBefore slotStart effectiveStart then
               (let duration = differenceInMinutes effectiveStart slotStart
                in if duration \<ge> minDuration
                   then freeSlots @ [\<lparr>fs_start = slotStart, fs_end = effectiveStart,
                                       fs_duration = duration\<rparr>]
                   else freeSlots)
             else freeSlots);
          slotStart' = (if isAfter effectiveEnd slotStart then effectiveEnd else slotStart)
      in events_loop dayStart dayEnd minDuration rest (slotStart', freeSlots'))"

text \<open>The body of the \<open>while\<close> loop for one day.\<close>

definition day_body ::
  "CalendarEvent list \<Rightarrow> int \<times> int \<Rightarrow> int \<times> int \<Rightarrow> int \<Rightarrow> Date \<Rightarrow> FreeSlot list
     \<Rightarrow> FreeSlot list" where
  "day_body events workStart workEnd minDuration currentDay freeSlots =
     (let dayStart = setMinutes (setHours currentDay (fst workStart)) (snd workStart);
          dayEnd = setMinutes (setHours currentDay (fst workEnd)) (snd workEnd);
          dayEvents = sort_key ev_start
            (filter (\<lambda>e.
               if isAllDay e then False
               else (let eventStart = ev_start e
                     in isWithinInterval eventStart \<lparr>iv_start = dayStart, iv_end = dayEnd\<rparr>
                        \<or> isWithinInterval (ev_end e) \<lparr>iv_start = dayStart, iv_end = dayEnd\<rparr>
                        \<or> (isBefore eventStart dayStart \<and> isAfter (ev_end e) dayEnd)))
               events);
          (slotStart, freeSlots') =
             events_loop dayStart dayEnd minDuration dayEvents (dayStart, freeSlots)
      in if isBefore slotStart dayEnd then
           (let duration = differenceInMinutes dayEnd slotStart
            in if duration \<ge> minDuration
               then freeSlots' @ [\<lparr>fs_start = slotStart, fs_end = dayEnd,
                                    fs_duration = duration\<rparr>]
               else freeSlots')
         else freeSlots')"

function days_loop ::
  "CalendarEvent list \<Rightarrow> int \<times> int \<Rightarrow> int \<times> int \<Rightarrow> int \<Rightarrow> Date \<Rightarrow> Date
     \<Rightarrow> FreeSlot list \<Rightarrow> FreeSlot list" where
  "days_loop events workStart workEnd minDuration currentDay lastDay freeSlots =
     (if currentDay \<le> lastDay
      then days_loop events workStart workEnd minDuration (addDays currentDay 1) lastDay
             (day_body events workStart workEnd minDuration currentDay freeSlots)
      else freeSlots)"
  by pat_completeness auto
termination
  by (relation "measure (\<lambda>(events, workStart, workEnd, minDuration, currentDay, lastDay,
         freeSlots). nat (lastDay - currentDay + 1))")
     (auto simp: addDays_def millisecondsInDay_def)

declare days_loop.simps [simp del]

text \<open>The result is \<open>None\<close> when the working hours are outside the model.\<close>

definition findFreeSlots ::
  "CalendarEvent list \<Rightarrow> Date \<Rightarrow> Date \<Rightarrow> WorkingHours \<Rightarrow> int \<Rightarrow> FreeSlot list option" where
  "findFreeSlots events startDate endDate workingHours minDuration =
     (case (split_hour_min (wh_start workingHours), split_hour_min (wh_end workingHours)) of
        (Some workStart, Some workEnd) \<Rightarrow>
          (let currentDay = startOfDay startDate;
               lastDay = startOfDay endDate
           in Some (days_loop events workStart workEnd minDuration currentDay lastDay []))
      | _ \<Rightarrow> None)"

subsection \<open>\<open>suggestBestTimes\<close>\<close>

text \<open>The score is an exact rational in the model; the source adds doubles.\<close>

record TimeSuggestion =
  slot :: FreeSlot
  score :: rat
  reasons :: "string list"

text \<open>The text a category (or \<open>undefined\<close>) has inside a template string.\<close>

fun category_text :: "EventCategory option \<Rightarrow> string" where
  "category_text None = ''undefined''"
| "category_text (Some Work) = ''work''"
| "category_text (Some Personal) = ''personal''"
| "category_text (Some Health) = ''health''"
| "category_text (Some Social) = ''social''"
| "category_text (Some Learning) = ''learning''"
| "category_text (Some Other) = ''other''"

text \<open>The loop over \<open>categoryHabit.preferredTimes\<close>; the state is \<open>score\<close> and \<open>reasons\<close>.\<close>

fun preferredTimes_loop ::
  "EventCategory option \<Rightarrow> int \<Rightarrow> int \<Rightarrow> TimeSlot list \<Rightarrow> rat \<times> string list
     \<Rightarrow> rat \<times> string list" where
  "preferredTimes_loop category slotHour slotDayOfWeek [] st = st"
| "preferredTimes_loop category slotHour slotDayOfWeek (preferredTime # rest) (score0, reasons0) =
     (let (score1, reasons1) =
            (if dayOfWeek preferredTime = Some slotDayOfWeek
             then (score0 + 1 / 10,
                   reasons0 @ [''You often schedule '' @ category_text category
                                 @ '' events on this day''])
             else (score0, reasons0));
          hourDiff = \<bar>hour preferredTime - slotHour\<bar>;
          (score2, reasons2) =
            (if hourDiff \<le> 1
             then (score1 + 2 / 10,
                   reasons1 @ [''This matches your usual time for '' @ category_text category
                                 @ '' tasks''])
             else if hourDiff \<le> 2 then (score1 + 1 / 10, reasons1)
             else (score1, reasons1))
      in preferredTimes_loop category slotHour slotDayOfWeek rest (score2, reasons2))"

text \<open>The body of the loop over \<open>freeSlots\<close> for a slot that is long enough.\<close>

definition suggestion_for ::
  "int \<Rightarrow> HabitPattern option \<Rightarrow> EventCategory option \<Rightarrow> FreeSlot \<Rightarrow> TimeSuggestion" where
  "suggestion_for desiredDuration categoryHabit category slot0 =
     (let slotHour = getHours (fs_start slot0);
          slotDayOfWeek = getDay (fs_start slot0);
          (score1, reasons1) =
            (case categoryHabit of
               Some h \<Rightarrow> preferredTimes_loop category slotHour slotDayOfWeek
                           (preferredTimes h) (1 / 2, [])
             | None \<Rightarrow> (1 / 2, []));
          (score2, reasons2) =
            (if category = Some Work \<or> category = Some Learning then
               (if slotHour \<ge> 9 \<and> slotHour < 12
                then (score1 + 15 / 100,
                      reasons1 @ [''Morning hours are great for focused work''])
                else (score1, reasons1))
             else (score1, reasons1));
          (score3, reasons3) =
            (if category = Some Social then
               (if slotHour \<ge> 17
                then (score2 + 1 / 10,
                      reasons2 @ [''Evening is typically better for social activities''])
                else (score2, reasons2))
             else (score2, reasons2));
          (score4, reasons4) =
            (if category = Some Health then
               (if (slotHour \<ge> 6 \<and> slotHour < 8) \<or> (slotHour \<ge> 17 \<and> slotHour < 19)
                then (score3 + 15 / 100, reasons3 @ [''Great time for exercise''])
                else (score3, reasons3))
             else (score3, reasons3));
          (score5, reasons5) =
            (if fs_duration slot0 \<ge> desiredDuration + 30
             then (score4 + 1 / 10, reasons4 @ [''Extra buffer time available''])
             else (score4, reasons4));
          score6 = min score5 1
      in \<lparr>slot = \<lparr>fs_start = fs_start slot0,
                   fs_end = addMinutes (fs_start slot0) desiredDuration,
                   fs_duration = desiredDuration\<rparr>,
          score = score6,
          reasons = reasons5\<rparr>)"

fun slots_loop ::
  "int \<Rightarrow> HabitPattern option \<Rightarrow> EventCategory option \<Rightarrow> FreeSlot list
     \<Rightarrow> TimeSuggestion list \<Rightarrow> TimeSuggestion list" where
  "slots_loop desiredDuration categoryHabit category [] suggestions = suggestions"
| "slots_loop desiredDuration categoryHabit category (slot0 # rest) suggestions =
     (if fs_duration slot0 < desiredDuration
      then slots_loop desiredDuration categoryHabit category rest suggestions
      else slots_loop desiredDuration categoryHabit category rest
             (suggestions @ [suggestion_for desiredDuration categoryHabit category slot0]))"

text \<open>
  The final \<open>sort\<close> with the comparator \<open>b.score - a.score\<close> is a stable sort by
  descending score.
\<close>

definition suggestBestTimes ::
  "FreeSlot list \<Rightarrow> int \<Rightarrow> HabitPattern list \<Rightarrow> EventCategory option
     \<Rightarrow> TimeSuggestion list" where
  "suggestBestTimes freeSlots desiredDuration habits category =
     (let categoryHabit = find (\<lambda>h. Some (h_category h) = category) habits;
          suggestions = slots_loop desiredDuration categoryHabit category freeSlots []
      in sort_key (\<lambda>s. - score s) suggestions)"

section \<open>Notions used to state the properties\<close>

text \<open>
  A well-formed habit table: the ids are unique (the table's key) and there is at most one
  row for a category, as \<open>learnFromEvent\<close> keeps it.
\<close>

definition table_ok :: "HabitTable \<Rightarrow> bool" where
  "table_ok t \<longleftrightarrow> distinct (map h_id t) \<and> distinct (map h_category t)"

text \<open>
  The last occurrences stored for a category (none when it has no pattern), the starts of
  the events of a category in a run of calls, and the two bounds on a pattern.
\<close>

definition lastOccurrences_of :: "EventCategory \<Rightarrow> HabitTable \<Rightarrow> Date list" where
  "lastOccurrences_of c t =
     (case getHabitByCategory c t of None \<Rightarrow> [] | Some h \<Rightarrow> lastOccurrences h)"

definition starts_of :: "EventCategory \<Rightarrow> (Date \<times> string \<times> CalendarEvent) list \<Rightarrow> Date list" where
  "starts_of c calls =
     map (\<lambda>call. ev_start (snd (snd call)))
       (filter (\<lambda>call. category_or_other (snd (snd call)) = c) calls)"

definition habit_bounds :: "HabitPattern \<Rightarrow> bool" where
  "habit_bounds h \<longleftrightarrow> length (preferredTimes h) \<le> 5 \<and> length (lastOccurrences h) \<le> 10"

text \<open>
  The slot of a suggestion: the candidate cut to the desired duration from its start.
\<close>

definition trimmed_slot :: "int \<Rightarrow> FreeSlot \<Rightarrow> FreeSlot" where
  "trimmed_slot desiredDuration slot0 =
     \<lparr>fs_start = fs_start slot0,
      fs_end = fs_start slot0 + desiredDuration * 60000,
      fs_duration = desiredDuration\<rparr>"

text \<open>
  What one preferred time adds to the score of a slot, and the reasons it adds, written
  without the loop state.
\<close>

definition preferred_bonus :: "int \<Rightarrow> int \<Rightarrow> TimeSlot \<Rightarrow> rat" where
  "preferred_bonus slotHour slotDayOfWeek p =
     (if dayOfWeek p = Some slotDayOfWeek then 1 / 10 else 0)
     + (if \<bar>hour p - slotHour\<bar> \<le> 1 then 2 / 10
        else if \<bar>hour p - slotHour\<bar> \<le> 2 then 1 / 10 else 0)"

definition preferred_reasons ::
  "EventCategory option \<Rightarrow> int \<Rightarrow> int \<Rightarrow> TimeSlot \<Rightarrow> string list" where
  "preferred_reasons category slotHour slotDayOfWeek p =
     (if dayOfWeek p = Some slotDayOfWeek
      then [''You often schedule '' @ category_text category @ '' events on this day'']
      else [])
     @ (if \<bar>hour p - slotHour\<bar> \<le> 1
        then [''This matches your usual time for '' @ category_text category @ '' tasks'']
        else [])"

definition heuristic_bonus :: "EventCategory option \<Rightarrow> int \<Rightarrow> rat" where
  "heuristic_bonus category slotHour =
     (if (category = Some Work \<or> category = Some Learning) \<and> 9 \<le> slotHour \<and> slotHour < 12
      then 15 / 100 else 0)
     + (if category = Some Social \<and> 17 \<le> slotHour then 1 / 10 else 0)
     + (if category = Some Health
           \<and> ((6 \<le> slotHour \<and> slotHour < 8) \<or> (17 \<le> slotHour \<and> slotHour < 19))
        then 15 / 100 else 0)"

definition heuristic_reasons :: "EventCategory option \<Rightarrow> int \<Rightarrow> string list" where
  "heuristic_reasons category slotHour =
     (if (category = Some Work \<or> category = Some Learning) \<and> 9 \<le> slotHour \<and> slotHour < 12
      then [''Morning hours are great for focused work''] else [])
     @ (if category = Some Social \<and> 17 \<le> slotHour
        then [''Evening is typically better for social activities''] else [])
     @ (if category = Some Health
           \<and> ((6 \<le> slotHour \<and> slotHour < 8) \<or> (17 \<le> slotHour \<and> slotHour < 19))
        then [''Great time for exercise''] else [])"

definition buffer_bonus :: "int \<Rightarrow> FreeSlot \<Rightarrow> rat" where
  "buffer_bonus desiredDuration slot0 =
     (if desiredDuration + 30 \<le> fs_duration slot0 then 1 / 10 else 0)"

definition buffer_reasons :: "int \<Rightarrow> FreeSlot \<Rightarrow> string list" where
  "buffer_reasons desiredDuration slot0 =
     (if desiredDuration + 30 \<le> fs_duration slot0 then [''Extra buffer time available'']
      else [])"

definition preferredTimes_of :: "HabitPattern option \<Rightarrow> TimeSlot list" where
  "preferredTimes_of categoryHabit =
     (case categoryHabit of None \<Rightarrow> [] | Some h \<Rightarrow> preferredTimes h)"

text \<open>
  The number of additions made to the score of a slot, and the number of those made
  without a reason: the additions of 0.1 for a preferred hour at a distance of exactly 2.
\<close>

definition bonuses_applied ::
  "int \<Rightarrow> HabitPattern option \<Rightarrow> EventCategory option \<Rightarrow> FreeSlot \<Rightarrow> nat" where
  "bonuses_applied desiredDuration categoryHabit category slot0 =
     (let slotHour = getHours (fs_start slot0); slotDayOfWeek = getDay (fs_start slot0)
      in length (filter (\<lambda>p. dayOfWeek p = Some slotDayOfWeek) (preferredTimes_of categoryHabit))
         + length (filter (\<lambda>p. \<bar>hour p - slotHour\<bar> \<le> 2) (preferredTimes_of categoryHabit))
         + (if heuristic_bonus category slotHour = 0 then 0 else 1)
         + (if buffer_bonus desiredDuration slot0 = 0 then 0 else 1))"

definition bonuses_without_reason :: "HabitPattern option \<Rightarrow> FreeSlot \<Rightarrow> nat" where
  "bonuses_without_reason categoryHabit slot0 =
     length (filter (\<lambda>p. \<bar>hour p - getHours (fs_start slot0)\<bar> = 2)
               (preferredTimes_of categoryHabit))"

definition expected_score ::
  "int \<Rightarrow> HabitPattern option \<Rightarrow> EventCategory option \<Rightarrow> FreeSlot \<Rightarrow> rat" where
  "expected_score desiredDuration categoryHabit category slot0 =
     min (1 / 2
          + sum_list (map (preferred_bonus (getHours (fs_start slot0)) (getDay (fs_start slot0)))
                        (preferredTimes_of categoryHabit))
          + heuristic_bonus category (getHours (fs_start slot0))
          + buffer_bonus desiredDuration slot0) 1"

definition expected_reasons ::
  "int \<Rightarrow> HabitPattern option \<Rightarrow> EventCategory option \<Rightarrow> FreeSlot \<Rightarrow> string list" where
  "expected_reasons desiredDuration categoryHabit category slot0 =
     concat (map (preferred_reasons category (getHours (fs_start slot0))
                    (getDay (fs_start slot0))) (preferredTimes_of categoryHabit))
     @ heuristic_reasons category (getHours (fs_start slot0))
     @ buffer_reasons desiredDuration slot0"

text \<open>
  The overlap graph of an event list: its vertices are the ids of the events that are not
  all-day, and two different ids are joined when their events strictly overlap. A
  component is the set of ids reachable from an id.
\<close>

definition strictly_overlap :: "CalendarEvent \<Rightarrow> CalendarEvent \<Rightarrow> bool" where
  "strictly_overlap a b \<longleftrightarrow> ev_start a < ev_end b \<and> ev_start b < ev_end a"

definition overlap_graph :: "CalendarEvent list \<Rightarrow> (string \<times> string) set" where
  "overlap_graph evs =
     {(ev_id a, ev_id b) | a b. a \<in> set evs \<and> b \<in> set evs \<and> \<not> isAllDay a \<and> \<not> isAllDay b
        \<and> ev_id a \<noteq> ev_id b \<and> strictly_overlap a b}"

definition component_of :: "CalendarEvent list \<Rightarrow> string \<Rightarrow> string set" where
  "component_of evs i = (overlap_graph evs)\<^sup>* `` {i}"

definition components :: "CalendarEvent list \<Rightarrow> string set set" where
  "components evs = component_of evs ` ev_id ` {e \<in> set evs. \<not> isAllDay e}"

text \<open>Events for the examples: a timed event and an all-day event.\<close>

definition timed_event :: "string \<Rightarrow> Date \<Rightarrow> Date \<Rightarrow> CalendarEvent" where
  "timed_event i s e =
     \<lparr>ev_id = i, ev_title = i, ev_start = s, ev_end = e, ev_allDay = Some False,
      ev_category = None\<rparr>"

definition allDay_event :: "string \<Rightarrow> Date \<Rightarrow> Date \<Rightarrow> CalendarEvent" where
  "allDay_event i s e =
     \<lparr>ev_id = i, ev_title = i, ev_start = s, ev_end = e, ev_allDay = Some True,
      ev_category = None\<rparr>"

text \<open>The ids stored under a key of the conflict map, and the map as a relation.\<close>

definition neighbours :: "ConflictMap \<Rightarrow> string \<Rightarrow> string set" where
  "neighbours m k = (case map_get m k of None \<Rightarrow> {} | Some s \<Rightarrow> set s)"

definition map_rel :: "ConflictMap \<Rightarrow> (string \<times> string) set" where
  "map_rel m = {(k, x). x \<in> neighbours m k}"

definition map_ok :: "ConflictMap \<Rightarrow> bool" where
  "map_ok m \<longleftrightarrow> distinct (map fst m) \<and> set (map fst m) = Domain (map_rel m)"

text \<open>The overlap test the loops apply to a pair of events.\<close>

definition overlapping :: "CalendarEvent \<Rightarrow> CalendarEvent \<Rightarrow> bool" where
  "overlapping a b =
     areIntervalsOverlapping \<lparr>iv_start = ev_start a, iv_end = ev_end a\<rparr>
       \<lparr>iv_start = ev_start b, iv_end = ev_end b\<rparr>"

text \<open>The pairs the nested loops track: each event with each later overlapping one.\<close>

fun pair_rel :: "CalendarEvent list \<Rightarrow> (string \<times> string) set" where
  "pair_rel [] = {}"
| "pair_rel (a # later) =
     {(ev_id a, ev_id b) | b. b \<in> set later \<and> overlapping a b}
     \<union> {(ev_id b, ev_id a) | b. b \<in> set later \<and> overlapping a b}
     \<union> pair_rel later"

text \<open>The shape of a conflict built from a group: severity and type from its size.\<close>

definition group_conflict :: "Conflict \<Rightarrow> bool" where
  "group_conflict c \<longleftrightarrow>
     distinct (c_events c)
     \<and> c_severity c = (if length (c_events c) > 3 then High
                       else if length (c_events c) > 2 then Medium else Low)
     \<and> c_type c = (if length (c_events c) > 2 then Overbooking else Overlap)"

text \<open>
  The free-slot finder as the specification words it. The working window of a day starts
  and ends at the working hours of that day; an event is relevant for the day when it is
  not all-day and its interval meets the window; an instant is clamped into the window;
  a gap from one instant to a later one is emitted when it lasts at least the minimum
  number of minutes.
\<close>

definition window_at :: "Date \<Rightarrow> int \<times> int \<Rightarrow> Date" where
  "window_at day hm = day + fst hm * millisecondsInHour + snd hm * millisecondsInMinute"

definition relevant :: "Date \<Rightarrow> Date \<Rightarrow> CalendarEvent \<Rightarrow> bool" where
  "relevant ws we e \<longleftrightarrow> \<not> isAllDay e \<and> ev_start e \<le> we \<and> ws \<le> ev_end e"

definition clamp_to_window :: "Date \<Rightarrow> Date \<Rightarrow> Date \<Rightarrow> Date" where
  "clamp_to_window ws we x = max ws (min we x)"

definition gap_slot :: "int \<Rightarrow> Date \<Rightarrow> Date \<Rightarrow> FreeSlot list" where
  "gap_slot minDuration a b =
     (if a < b \<and> minDuration \<le> differenceInMinutes b a
      then [\<lparr>fs_start = a, fs_end = b, fs_duration = differenceInMinutes b a\<rparr>]
      else [])"

text \<open>
  The cursor scan: for each event in order the gap from the cursor to the clamped start
  is emitted, then the cursor advances to the clamped end if that is later; after the last
  event the gap to the window end is emitted.
\<close>

fun cursor_scan :: "Date \<Rightarrow> Date \<Rightarrow> int \<Rightarrow> Date \<Rightarrow> CalendarEvent list \<Rightarrow> FreeSlot list" where
  "cursor_scan ws we minDuration cursor [] = gap_slot minDuration cursor we"
| "cursor_scan ws we minDuration cursor (e # es) =
     gap_slot minDuration cursor (clamp_to_window ws we (ev_start e))
     @ cursor_scan ws we minDuration (max cursor (clamp_to_window ws we (ev_end e))) es"

definition day_slots :: "CalendarEvent list \<Rightarrow> Date \<Rightarrow> Date \<Rightarrow> int \<Rightarrow> FreeSlot list" where
  "day_slots events ws we minDuration =
     cursor_scan ws we minDuration ws (sort_key ev_start (filter (relevant ws we) events))"

text \<open>The days of an inclusive range, given the starts of its first and last day.\<close>

definition days_between :: "Date \<Rightarrow> Date \<Rightarrow> Date list" where
  "days_between firstDay lastDay =
     map (\<lambda>k. firstDay + int k * millisecondsInDay)
       [0 ..< nat ((lastDay - firstDay) div millisecondsInDay + 1)]"

section \<open>Properties of the overlap test\<close>

lemma areIntervalsOverlapping_strict:
  assumes "iv_start l \<le> iv_end l" and "iv_start r \<le> iv_end r"
  shows "areIntervalsOverlapping l r \<longleftrightarrow> iv_start l < iv_end r \<and> iv_start r < iv_end l"
  using assms by (simp add: areIntervalsOverlapping_def Let_def min_def max_def)

lemma areIntervalsOverlapping_sym:
  "areIntervalsOverlapping l r = areIntervalsOverlapping r l"
  by (auto simp: areIntervalsOverlapping_def Let_def)

section \<open>\<open>hasConflict\<close>\<close>

text \<open>
  Claim C10. For a candidate and existing events whose intervals are well formed
  (start not after end), \<open>hasConflict\<close> returns true exactly when some existing event
  that is not all-day strictly overlaps the candidate; consequently a list in which every
  event is all-day, or ends no later than the candidate starts, or starts no earlier than
  the candidate ends, gives false.
\<close>

theorem hasConflict_iff_strict_overlap:
  assumes "iv_start newEvent \<le> iv_end newEvent"
    and "\<forall>e \<in> set existingEvents. ev_start e \<le> ev_end e"
  shows "(hasConflict newEvent existingEvents \<longleftrightarrow>
           (\<exists>e \<in> set existingEvents. \<not> isAllDay e \<and>
                iv_start newEvent < ev_end e \<and> ev_start e < iv_end newEvent))
         \<and> ((\<forall>e \<in> set existingEvents. isAllDay e \<or> ev_end e \<le> iv_start newEvent
                 \<or> iv_end newEvent \<le> ev_start e)
               \<longrightarrow> \<not> hasConflict newEvent existingEvents)"
proof -
  have main: "hasConflict newEvent existingEvents \<longleftrightarrow>
           (\<exists>e \<in> set existingEvents. \<not> isAllDay e \<and>
                iv_start newEvent < ev_end e \<and> ev_start e < iv_end newEvent)"
    using assms
  proof (induction existingEvents)
    case Nil
    show ?case by simp
  next
    case (Cons event rest)
    have wf: "ev_start event \<le> ev_end event"
      using Cons.prems by simp
    have ov: "areIntervalsOverlapping
                \<lparr>iv_start = iv_start newEvent, iv_end = iv_end newEvent\<rparr>
                \<lparr>iv_start = ev_start event, iv_end = ev_end event\<rparr>
              \<longleftrightarrow> iv_start newEvent < ev_end event \<and> ev_start event < iv_end newEvent"
      using Cons.prems(1) wf by (simp add: areIntervalsOverlapping_strict)
    have ih: "hasConflict newEvent rest \<longleftrightarrow>
           (\<exists>e \<in> set rest. \<not> isAllDay e \<and>
                iv_start newEvent < ev_end e \<and> ev_start e < iv_end newEvent)"
      using Cons.IH Cons.prems by simp
    show ?case
      by (simp only: hasConflict.simps ov ih list.set bex_simps ball_simps)
         (auto simp: Bex_def)
  qed
  show ?thesis
    unfolding main by force
qed

theorem hasConflict_iff_strict_overlap_witness:
  "hasConflict \<lparr>iv_start = 10, iv_end = 20\<rparr>
     [\<lparr>ev_id = ''a'', ev_title = ''all day'', ev_start = 0, ev_end = 100,
        ev_allDay = Some True, ev_category = None\<rparr>,
      \<lparr>ev_id = ''b'', ev_title = ''touching'', ev_start = 20, ev_end = 30,
        ev_allDay = None, ev_category = None\<rparr>,
      \<lparr>ev_id = ''c'', ev_title = ''overlapping'', ev_start = 19, ev_end = 30,
        ev_allDay = Some False, ev_category = Some Work\<rparr>]
   \<and> \<not> hasConflict \<lparr>iv_start = 10, iv_end = 20\<rparr>
     [\<lparr>ev_id = ''a'', ev_title = ''all day'', ev_start = 0, ev_end = 100,
        ev_allDay = Some True, ev_category = None\<rparr>,
      \<lparr>ev_id = ''b'', ev_title = ''touching'', ev_start = 20, ev_end = 30,
        ev_allDay = None, ev_category = None\<rparr>]"
proof -
  let ?n = "\<lparr>iv_start = 10, iv_end = 20\<rparr>"
  let ?a = "\<lparr>ev_id = ''a'', ev_title = ''all day'', ev_start = 0, ev_end = 100,
        ev_allDay = Some True, ev_category = None\<rparr>"
  let ?b = "\<lparr>ev_id = ''b'', ev_title = ''touching'', ev_start = 20, ev_end = 30,
        ev_allDay = None, ev_category = None\<rparr>"
  let ?c = "\<lparr>ev_id = ''c'', ev_title = ''overlapping'', ev_start = 19, ev_end = 30,
        ev_allDay = Some False, ev_category = Some Work\<rparr>"
  have "hasConflict ?n [?a, ?b, ?c]"
    using hasConflict_iff_strict_overlap [of ?n "[?a, ?b, ?c]"]
    by (simp add: isAllDay_def)
  moreover have "\<not> hasConflict ?n [?a, ?b]"
    using hasConflict_iff_strict_overlap [of ?n "[?a, ?b]"]
    by (simp add: isAllDay_def)
  ultimately show ?thesis by simp
qed

section \<open>The habit learner\<close>

lemma find_unique_key:
  "distinct (map f t) \<Longrightarrow> h \<in> set t \<Longrightarrow> find (\<lambda>x. f x = f h) t = Some h"
  by (induction t) (auto simp: image_iff)

lemma getHabitByCategory_SomeD:
  "getHabitByCategory c t = Some h \<Longrightarrow> h \<in> set t \<and> h_category h = c"
  by (auto simp: getHabitByCategory_def table_where_category_first_def find_Some_iff)

lemma getHabitByCategory_None_iff:
  "getHabitByCategory c t = None \<longleftrightarrow> c \<notin> h_category ` set t"
  by (auto simp: getHabitByCategory_def table_where_category_first_def find_None_iff)

lemma getHabitByCategory_append_new:
  "getHabitByCategory c t = None \<Longrightarrow> h_category h = c \<Longrightarrow>
   getHabitByCategory c' (t @ [h]) = (if c' = c then Some h else getHabitByCategory c' t)"
  by (induction t) (auto simp: getHabitByCategory_def table_where_category_first_def)

lemma same_id_same_row:
  "distinct (map h_id t) \<Longrightarrow> x \<in> set t \<Longrightarrow> h \<in> set t \<Longrightarrow> h_id x = h_id h \<Longrightarrow> x = h"
  by (auto simp: distinct_map dest: inj_onD)

lemma replace_by_id:
  assumes "distinct (map h_id t)" and "h \<in> set t"
  shows "map (\<lambda>x. if h_id x = h_id h then h' else x) t = map (\<lambda>x. if x = h then h' else x) t"
  using assms by (intro map_cong) (auto dest: same_id_same_row)

lemma replace_absent:
  "h \<notin> set t \<Longrightarrow> map (\<lambda>x. if x = h then h' else x) t = t"
  by (induction t) auto

lemma find_category_replace:
  assumes "distinct (map h_category t)" and "h \<in> set t" and "h_category h' = h_category h"
  shows "find (\<lambda>x. h_category x = c) (map (\<lambda>x. if x = h then h' else x) t)
         = (if c = h_category h then Some h' else find (\<lambda>x. h_category x = c) t)"
  using assms
proof (induction t)
  case Nil
  then show ?case by simp
next
  case (Cons a t)
  show ?case
  proof (cases "a = h")
    case True
    then have "h \<notin> set t"
      using Cons.prems(1) by (auto simp: image_iff)
    then show ?thesis
      using True Cons.prems by (simp add: replace_absent)
  next
    case False
    then have "h \<in> set t" using Cons.prems by simp
    moreover have "h_category a \<noteq> h_category h"
      using Cons.prems(1) \<open>h \<in> set t\<close> by (auto simp: image_iff)
    moreover have "find (\<lambda>x. h_category x = c) (map (\<lambda>x. if x = h then h' else x) t)
         = (if c = h_category h then Some h' else find (\<lambda>x. h_category x = c) t)"
      using Cons.IH Cons.prems \<open>h \<in> set t\<close> by simp
    ultimately show ?thesis
      using False by auto
  qed
qed

lemma getHabitByCategory_replace:
  assumes "table_ok t" and "h \<in> set t"
    and "h_category h' = h_category h" and "h_id h' = h_id h"
  shows "getHabitByCategory c (map (\<lambda>x. if h_id x = h_id h then h' else x) t)
         = (if c = h_category h then Some h' else getHabitByCategory c t)"
  using assms find_category_replace [of t h h' c]
  by (simp add: replace_by_id table_ok_def getHabitByCategory_def
        table_where_category_first_def)

lemma map_key_replace:
  assumes "h \<in> set t" and "f h' = f h"
  shows "map f (map (\<lambda>x. if x = h then h' else x) t) = map f t"
  using assms by (induction t) auto

lemma table_ok_replace:
  assumes "table_ok t" and "h \<in> set t"
    and "h_category h' = h_category h" and "h_id h' = h_id h"
  shows "table_ok (map (\<lambda>x. if h_id x = h_id h then h' else x) t)"
proof -
  have eq: "map (\<lambda>x. if h_id x = h_id h then h' else x) t
              = map (\<lambda>x. if x = h then h' else x) t"
    using assms by (simp add: replace_by_id table_ok_def)
  have "map h_id (map (\<lambda>x. if x = h then h' else x) t) = map h_id t"
    using assms by (intro map_key_replace) simp_all
  moreover have "map h_category (map (\<lambda>x. if x = h then h' else x) t) = map h_category t"
    using assms by (intro map_key_replace) simp_all
  ultimately show ?thesis
    using assms(1) unfolding table_ok_def eq by (simp only:)
qed

lemma set_replace:
  assumes "table_ok t" and "h \<in> set t" and "h_id h' = h_id h"
  shows "set (map (\<lambda>x. if h_id x = h_id h then h' else x) t) = insert h' (set t - {h})"
  using assms by (auto simp: replace_by_id table_ok_def)

lemma learnFromEvent_update:
  assumes ok: "table_ok t" and get: "getHabitByCategory (category_or_other e) t = Some habit"
  shows "\<exists>h' t'. learnFromEvent now newId e t = Inr (Some h', t')
           \<and> table_ok t'
           \<and> set t' = insert h' (set t - {habit})
           \<and> (\<forall>c. getHabitByCategory c t'
                  = (if c = category_or_other e then Some h' else getHabitByCategory c t))
           \<and> h_category h' = category_or_other e
           \<and> eventCount h' = eventCount habit + 1
           \<and> avgDuration h' = Math_round
                 (of_int (avgDuration habit * int (eventCount habit)
                            + differenceInMinutes (ev_end e) (ev_start e))
                    / of_int (int (eventCount habit) + 1))
           \<and> lastOccurrences h' = slice_last 10 (lastOccurrences habit @ [ev_start e])
           \<and> preferredTimes h' = updatePreferredTimes (preferredTimes habit)
                 \<lparr>dayOfWeek = Some (getDay (ev_start e)), hour = getHours (ev_start e),
                  minute = getMinutes (ev_start e)\<rparr>"
proof -
  from getHabitByCategory_SomeD [OF get]
  have mem: "habit \<in> set t" and cat: "h_category habit = category_or_other e"
    by simp_all
  have tg: "table_get (h_id habit) t = Some habit"
    using ok mem find_unique_key [of h_id t habit] by (simp add: table_get_def table_ok_def)
  have inids: "h_id habit \<in> h_id ` set t"
    using mem by simp
  define h' where "h' = habit\<lparr>preferredTimes := updatePreferredTimes (preferredTimes habit)
                 \<lparr>dayOfWeek = Some (getDay (ev_start e)), hour = getHours (ev_start e),
                  minute = getMinutes (ev_start e)\<rparr>,
            avgDuration := Math_round
                 (of_int (avgDuration habit * int (eventCount habit)
                            + differenceInMinutes (ev_end e) (ev_start e))
                    / of_int (int (eventCount habit) + 1)),
            lastOccurrences := slice_last 10 (lastOccurrences habit @ [ev_start e]),
            eventCount := eventCount habit + 1,
            h_id := h_id habit, updatedAt := now\<rparr>"
  define t' where "t' = map (\<lambda>x. if h_id x = h_id habit then h' else x) t"
  have hid: "h_id h' = h_id habit" and hcat: "h_category h' = h_category habit"
    by (simp_all add: h'_def)
  have run: "learnFromEvent now newId e t = Inr (Some h', t')"
    using get tg inids
    by (simp add: learnFromEvent_def Let_def updateHabit_def table_put_def h'_def t'_def)
  moreover have "table_ok t'"
    unfolding t'_def using table_ok_replace [OF ok mem hcat hid] .
  moreover have "set t' = insert h' (set t - {habit})"
    unfolding t'_def using set_replace [OF ok mem hid] .
  moreover have "\<forall>c. getHabitByCategory c t'
                  = (if c = category_or_other e then Some h' else getHabitByCategory c t)"
    unfolding t'_def using getHabitByCategory_replace [OF ok mem hcat hid] cat by simp
  ultimately show ?thesis
    using cat by (intro exI [of _ h'] exI [of _ t']) (simp add: h'_def)
qed

lemma learnFromEvent_create:
  assumes ok: "table_ok t" and get: "getHabitByCategory (category_or_other e) t = None"
    and fresh: "newId \<notin> h_id ` set t"
  shows "\<exists>h' t'. learnFromEvent now newId e t = Inr (Some h', t')
           \<and> table_ok t'
           \<and> set t' = insert h' (set t)
           \<and> (\<forall>c. getHabitByCategory c t'
                  = (if c = category_or_other e then Some h' else getHabitByCategory c t))
           \<and> h_category h' = category_or_other e
           \<and> eventCount h' = 1
           \<and> avgDuration h' = differenceInMinutes (ev_end e) (ev_start e)
           \<and> lastOccurrences h' = [ev_start e]
           \<and> preferredTimes h' =
                 [\<lparr>dayOfWeek = Some (getDay (ev_start e)), hour = getHours (ev_start e),
                   minute = getMinutes (ev_start e)\<rparr>]"
proof -
  define h' where "h' = \<lparr>h_id = newId, h_category = category_or_other e,
                      preferredTimes = [\<lparr>dayOfWeek = Some (getDay (ev_start e)),
                          hour = getHours (ev_start e), minute = getMinutes (ev_start e)\<rparr>],
                      avgDuration = differenceInMinutes (ev_end e) (ev_start e),
                      frequency = Weekly,
                      lastOccurrences = [ev_start e],
                      eventCount = 1,
                      createdAt = now, updatedAt = now\<rparr>"
  have run: "learnFromEvent now newId e t = Inr (Some h', t @ [h'])"
    using get fresh
    by (simp add: learnFromEvent_def Let_def createHabit_def table_add_def h'_def)
  moreover have "table_ok (t @ [h'])"
    using ok get fresh by (auto simp: table_ok_def getHabitByCategory_None_iff h'_def)
  moreover have "\<forall>c. getHabitByCategory c (t @ [h'])
                  = (if c = category_or_other e then Some h' else getHabitByCategory c t)"
    using getHabitByCategory_append_new [OF get, of h'] by (simp add: h'_def)
  ultimately show ?thesis
    by (intro exI [of _ h'] exI [of _ "t @ [h']"]) (simp add: h'_def)
qed

lemma learnFromEvent_reject:
  assumes "getHabitByCategory (category_or_other e) t = None" and "newId \<in> h_id ` set t"
  shows "learnFromEvent now newId e t = Inl ConstraintError"
  using assms by (simp add: learnFromEvent_def Let_def createHabit_def table_add_def)

lemma Math_round_div:
  assumes "0 < b"
  shows "Math_round (of_int a / of_int b) = (2 * a + b) div (2 * b)"
proof -
  have "(of_int a / of_int b + 1 / 2 :: rat) = of_int (2 * a + b) / of_int (2 * b)"
    using assms by (simp add: field_simps)
  then show ?thesis
    unfolding Math_round_def by (simp only: floor_divide_of_int_eq)
qed

lemma learnFromEvents_existing:
  assumes "table_ok t" and "getHabitByCategory c t = Some h"
    and "\<forall>call \<in> set calls. category_or_other (snd (snd call)) = c"
  shows "\<exists>t' h'. learnFromEvents calls t = Inr t' \<and> table_ok t'
            \<and> getHabitByCategory c t' = Some h'
            \<and> eventCount h' = eventCount h + length calls"
  using assms
proof (induction calls arbitrary: t h)
  case Nil
  then show ?case by simp
next
  case (Cons call calls)
  obtain now newId e where call: "call = (now, newId, e)"
    by (cases call) auto
  have cat: "category_or_other e = c"
    using Cons.prems(3) call by simp
  from learnFromEvent_update [of t e h now newId] Cons.prems(1,2) cat
  obtain h1 t1 where step: "learnFromEvent now newId e t = Inr (Some h1, t1)"
    and ok1: "table_ok t1" and get1: "getHabitByCategory c t1 = Some h1"
    and cnt1: "eventCount h1 = eventCount h + 1"
    by auto
  from Cons.IH [OF ok1 get1] Cons.prems(3)
  obtain t' h' where "learnFromEvents calls t1 = Inr t'" "table_ok t'"
    "getHabitByCategory c t' = Some h'" "eventCount h' = eventCount h1 + length calls"
    by auto
  then show ?case
    using step cnt1 call by simp
qed

text \<open>
  Claim C4. From a well-formed table with no pattern for a category, a run of \<open>N \<ge> 1\<close>
  calls of \<open>learnFromEvent\<close> with events of that category succeeds (the id generated for
  the first call being new) and leaves a pattern whose \<open>eventCount\<close> is \<open>N\<close>. A call
  that finds a pattern stores the average
  \<open>Math.round((avgDuration * eventCount + duration) / (eventCount + 1))\<close>. After two
  events of 30 and 60 minutes the average is 45.
\<close>

theorem learnFromEvent_count_and_average:
  assumes ok: "table_ok t"
  shows "(getHabitByCategory c t = None \<and> id0 \<notin> h_id ` set t
            \<and> (\<forall>call \<in> set ((now0, id0, e0) # calls).
                   category_or_other (snd (snd call)) = c)
          \<longrightarrow> (\<exists>t' h. learnFromEvents ((now0, id0, e0) # calls) t = Inr t'
                 \<and> getHabitByCategory c t' = Some h
                 \<and> eventCount h = length ((now0, id0, e0) # calls)))
       \<and> (getHabitByCategory (category_or_other e) t = Some habit
          \<longrightarrow> (\<exists>t' h'. learnFromEvent now newId e t = Inr (Some h', t')
                 \<and> getHabitByCategory (category_or_other e) t' = Some h'
                 \<and> avgDuration h' = Math_round
                      (of_int (avgDuration habit * int (eventCount habit)
                                 + differenceInMinutes (ev_end e) (ev_start e))
                         / of_int (int (eventCount habit) + 1))))
       \<and> (getHabitByCategory c t = None \<and> id1 \<notin> h_id ` set t
            \<and> category_or_other e1 = c \<and> category_or_other e2 = c
            \<and> differenceInMinutes (ev_end e1) (ev_start e1) = 30
            \<and> differenceInMinutes (ev_end e2) (ev_start e2) = 60
          \<longrightarrow> (\<exists>t' h. learnFromEvents [(now1, id1, e1), (now2, id2, e2)] t = Inr t'
                 \<and> getHabitByCategory c t' = Some h
                 \<and> eventCount h = 2 \<and> avgDuration h = 45))"
proof (intro conjI impI)
  assume a: "getHabitByCategory c t = None \<and> id0 \<notin> h_id ` set t
            \<and> (\<forall>call \<in> set ((now0, id0, e0) # calls).
                   category_or_other (snd (snd call)) = c)"
  then have cat0: "category_or_other e0 = c"
    and rest: "\<forall>call \<in> set calls. category_or_other (snd (snd call)) = c"
    by simp_all
  from learnFromEvent_create [of t e0 id0 now0] ok a cat0
  obtain h1 t1 where step: "learnFromEvent now0 id0 e0 t = Inr (Some h1, t1)"
    and ok1: "table_ok t1" and get1: "getHabitByCategory c t1 = Some h1"
    and cnt1: "eventCount h1 = 1"
    by auto
  from learnFromEvents_existing [OF ok1 get1 rest]
  obtain t' h' where "learnFromEvents calls t1 = Inr t'"
    "getHabitByCategory c t' = Some h'" "eventCount h' = eventCount h1 + length calls"
    by auto
  then show "\<exists>t' h. learnFromEvents ((now0, id0, e0) # calls) t = Inr t'
                 \<and> getHabitByCategory c t' = Some h
                 \<and> eventCount h = length ((now0, id0, e0) # calls)"
    using step cnt1 by simp
next
  assume "getHabitByCategory (category_or_other e) t = Some habit"
  from learnFromEvent_update [OF ok this, of now newId]
  show "\<exists>t' h'. learnFromEvent now newId e t = Inr (Some h', t')
                 \<and> getHabitByCategory (category_or_other e) t' = Some h'
                 \<and> avgDuration h' = Math_round
                      (of_int (avgDuration habit * int (eventCount habit)
                                 + differenceInMinutes (ev_end e) (ev_start e))
                         / of_int (int (eventCount habit) + 1))"
    by auto
next
  assume a: "getHabitByCategory c t = None \<and> id1 \<notin> h_id ` set t
            \<and> category_or_other e1 = c \<and> category_or_other e2 = c
            \<and> differenceInMinutes (ev_end e1) (ev_start e1) = 30
            \<and> differenceInMinutes (ev_end e2) (ev_start e2) = 60"
  from learnFromEvent_create [of t e1 id1 now1] ok a
  obtain h1 t1 where step1: "learnFromEvent now1 id1 e1 t = Inr (Some h1, t1)"
    and ok1: "table_ok t1" and get1: "getHabitByCategory c t1 = Some h1"
    and cnt1: "eventCount h1 = 1" and avg1: "avgDuration h1 = 30"
    by auto
  have get1': "getHabitByCategory (category_or_other e2) t1 = Some h1"
    using get1 a by simp
  from learnFromEvent_update [OF ok1 get1', of now2 id2] a
  obtain h2 t2 where step2: "learnFromEvent now2 id2 e2 t1 = Inr (Some h2, t2)"
    and get2: "getHabitByCategory c t2 = Some h2"
    and cnt2: "eventCount h2 = eventCount h1 + 1"
    and avg2: "avgDuration h2 = Math_round
                 (of_int (avgDuration h1 * int (eventCount h1) + 60)
                    / of_int (int (eventCount h1) + 1))"
    by auto
  have "avgDuration h2 = 45"
    unfolding avg2 avg1 cnt1 by (subst Math_round_div) simp_all
  then show "\<exists>t' h. learnFromEvents [(now1, id1, e1), (now2, id2, e2)] t = Inr t'
                 \<and> getHabitByCategory c t' = Some h
                 \<and> eventCount h = 2 \<and> avgDuration h = 45"
    using step1 step2 get2 cnt2 cnt1 by simp
qed

theorem learnFromEvent_count_and_average_witness:
  "(\<exists>t' h. learnFromEvents
        [(1, ''h1'', \<lparr>ev_id = ''a'', ev_title = ''run'', ev_start = 0, ev_end = 1800000,
                      ev_allDay = None, ev_category = Some Health\<rparr>),
         (2, ''h2'', \<lparr>ev_id = ''b'', ev_title = ''swim'', ev_start = 86400000,
                      ev_end = 90000000, ev_allDay = None, ev_category = Some Health\<rparr>),
         (3, ''h3'', \<lparr>ev_id = ''c'', ev_title = ''gym'', ev_start = 172800000,
                      ev_end = 176400000, ev_allDay = None, ev_category = Some Health\<rparr>)] []
        = Inr t'
      \<and> getHabitByCategory Health t' = Some h \<and> eventCount h = 3)
   \<and> (\<exists>t' h'. learnFromEvent 9 ''h9''
          \<lparr>ev_id = ''b'', ev_title = ''swim'', ev_start = 86400000,
            ev_end = 90000000, ev_allDay = None, ev_category = Some Health\<rparr>
          [\<lparr>h_id = ''h1'', h_category = Health,
            preferredTimes = [\<lparr>dayOfWeek = Some 4, hour = 0, minute = 0\<rparr>],
            avgDuration = 30, frequency = Weekly, lastOccurrences = [0], eventCount = 1,
            createdAt = 1, updatedAt = 1\<rparr>] = Inr (Some h', t')
      \<and> avgDuration h' = 45)
   \<and> (\<exists>t' h. learnFromEvents
        [(1, ''h1'', \<lparr>ev_id = ''a'', ev_title = ''run'', ev_start = 0, ev_end = 1800000,
                      ev_allDay = None, ev_category = Some Health\<rparr>),
         (2, ''h2'', \<lparr>ev_id = ''b'', ev_title = ''swim'', ev_start = 86400000,
                      ev_end = 90000000, ev_allDay = None, ev_category = Some Health\<rparr>)] []
        = Inr t'
      \<and> getHabitByCategory Health t' = Some h \<and> eventCount h = 2 \<and> avgDuration h = 45)"
proof -
  let ?e1 = "\<lparr>ev_id = ''a'', ev_title = ''run'', ev_start = 0, ev_end = 1800000,
                      ev_allDay = None, ev_category = Some Health\<rparr>"
  let ?e2 = "\<lparr>ev_id = ''b'', ev_title = ''swim'', ev_start = 86400000,
                      ev_end = 90000000, ev_allDay = None, ev_category = Some Health\<rparr>"
  let ?e3 = "\<lparr>ev_id = ''c'', ev_title = ''gym'', ev_start = 172800000,
                      ev_end = 176400000, ev_allDay = None, ev_category = Some Health\<rparr>"
  let ?h = "\<lparr>h_id = ''h1'', h_category = Health,
            preferredTimes = [\<lparr>dayOfWeek = Some 4, hour = 0, minute = 0\<rparr>],
            avgDuration = 30, frequency = Weekly, lastOccurrences = [0], eventCount = 1,
            createdAt = 1, updatedAt = 1\<rparr>"
  have ok0: "table_ok []" and ok1: "table_ok [?h]"
    by (simp_all add: table_ok_def)
  have d1: "differenceInMinutes (ev_end ?e1) (ev_start ?e1) = 30"
    and d2: "differenceInMinutes (ev_end ?e2) (ev_start ?e2) = 60"
    by (simp_all add: differenceInMinutes_def millisecondsInMinute_def)
  have c: "category_or_other ?e1 = Health" "category_or_other ?e2 = Health"
    "category_or_other ?e3 = Health"
    by (simp_all add: category_or_other_def)
  have g0: "getHabitByCategory Health [] = None"
    and g1: "getHabitByCategory Health [?h] = Some ?h"
    by (simp_all add: getHabitByCategory_def table_where_category_first_def)
  have r: "Math_round (of_int (30 * int 1 + 60) / of_int (int 1 + 1)) = 45"
    by (subst Math_round_div) simp_all
  have h1: "getHabitByCategory Health [] = None \<and> ''h1'' \<notin> h_id ` set []
            \<and> (\<forall>call \<in> set ((1, ''h1'', ?e1) # [(2, ''h2'', ?e2), (3, ''h3'', ?e3)]).
                   category_or_other (snd (snd call)) = Health)"
    using g0 c by simp
  have first: "\<exists>t' h. learnFromEvents [(1, ''h1'', ?e1), (2, ''h2'', ?e2), (3, ''h3'', ?e3)] []
                  = Inr t' \<and> getHabitByCategory Health t' = Some h \<and> eventCount h = 3"
    using learnFromEvent_count_and_average [OF ok0, where c = Health and ?id0.0 = "''h1''"
        and ?now0.0 = 1 and ?e0.0 = ?e1 and calls = "[(2, ''h2'', ?e2), (3, ''h3'', ?e3)]",
        THEN conjunct1, THEN mp, OF h1]
    by (simp del: learnFromEvents.simps add: numeral_3_eq_3)
  have h2: "getHabitByCategory (category_or_other ?e2) [?h] = Some ?h"
    using g1 c by simp
  have second: "\<exists>t' h'. learnFromEvent 9 ''h9'' ?e2 [?h] = Inr (Some h', t')
                  \<and> avgDuration h' = 45"
    using learnFromEvent_count_and_average [OF ok1, where e = ?e2 and habit = ?h
        and now = 9 and newId = "''h9''", THEN conjunct2, THEN conjunct1, THEN mp, OF h2]
      d2 r by auto
  have h3: "getHabitByCategory Health [] = None \<and> ''h1'' \<notin> h_id ` set []
            \<and> category_or_other ?e1 = Health \<and> category_or_other ?e2 = Health
            \<and> differenceInMinutes (ev_end ?e1) (ev_start ?e1) = 30
            \<and> differenceInMinutes (ev_end ?e2) (ev_start ?e2) = 60"
    using g0 c d1 d2 by simp
  have third: "\<exists>t' h. learnFromEvents [(1, ''h1'', ?e1), (2, ''h2'', ?e2)] [] = Inr t'
                  \<and> getHabitByCategory Health t' = Some h \<and> eventCount h = 2
                  \<and> avgDuration h = 45"
    using learnFromEvent_count_and_average [OF ok0, where c = Health and ?id1.0 = "''h1''"
        and ?e1.0 = ?e1 and ?e2.0 = ?e2 and ?now1.0 = 1 and ?now2.0 = 2
        and ?id2.0 = "''h2''", THEN conjunct2, THEN conjunct2, THEN mp, OF h3] .
  from first second third show ?thesis by (intro conjI)
qed

lemma length_slice_last: "length (slice_last n xs) = min n (length xs)"
  by (simp add: slice_last_def)

lemma slice_last_short: "length xs \<le> n \<Longrightarrow> slice_last n xs = xs"
  by (simp add: slice_last_def)

lemma slice_last_append:
  "slice_last n (slice_last n xs @ ys) = slice_last n (xs @ ys)"
proof (cases "length xs \<le> n")
  case True
  then show ?thesis by (simp add: slice_last_short)
next
  case False
  then have "drop (length xs - n) xs @ ys = drop (length xs - n) (xs @ ys)"
    by simp
  moreover have "length (drop (length xs - n) xs @ ys) - n = length ys"
    using False by simp
  moreover have "length (xs @ ys) - n = length ys + (length xs - n)"
    using False by simp
  ultimately show ?thesis
    unfolding slice_last_def by (metis drop_drop)
qed

lemma findIndex_Some_less: "findIndex p xs = Some i \<Longrightarrow> i < length xs"
  by (induction xs arbitrary: i) (auto split: if_splits)

lemma length_updatePreferredTimes:
  "length existing \<le> 5 \<Longrightarrow> length (updatePreferredTimes existing newSlot) \<le> 5"
  by (simp add: updatePreferredTimes_def Let_def length_slice_last split: option.splits)

lemma learnFromEvent_step:
  assumes ok: "table_ok t" and bounds: "\<forall>h \<in> set t. habit_bounds h"
    and run: "learnFromEvent now newId e t = Inr (r, t1)"
  shows "table_ok t1 \<and> (\<forall>h \<in> set t1. habit_bounds h)
         \<and> (\<forall>c. lastOccurrences_of c t1
                = (if c = category_or_other e
                   then slice_last 10 (lastOccurrences_of c t @ [ev_start e])
                   else lastOccurrences_of c t))"
proof (cases "getHabitByCategory (category_or_other e) t")
  case None
  have fresh: "newId \<notin> h_id ` set t"
    using learnFromEvent_reject [OF None, of newId now] run by auto
  from learnFromEvent_create [OF ok None fresh, of now] run
  obtain h' where ok1: "table_ok t1" and set1: "set t1 = insert h' (set t)"
    and get1: "\<forall>c. getHabitByCategory c t1
                  = (if c = category_or_other e then Some h' else getHabitByCategory c t)"
    and occ: "lastOccurrences h' = [ev_start e]"
    and pref: "length (preferredTimes h') = 1"
    by auto
  have "habit_bounds h'"
    using occ pref by (simp add: habit_bounds_def)
  then have "\<forall>h \<in> set t1. habit_bounds h"
    using bounds set1 by simp
  moreover have "\<forall>c. lastOccurrences_of c t1
                = (if c = category_or_other e
                   then slice_last 10 (lastOccurrences_of c t @ [ev_start e])
                   else lastOccurrences_of c t)"
    using get1 None occ by (simp add: lastOccurrences_of_def slice_last_def)
  ultimately show ?thesis using ok1 by simp
next
  case (Some habit)
  have mem: "habit \<in> set t"
    using getHabitByCategory_SomeD [OF Some] by simp
  from learnFromEvent_update [OF ok Some, of now newId] run
  obtain h' where ok1: "table_ok t1" and set1: "set t1 = insert h' (set t - {habit})"
    and get1: "\<forall>c. getHabitByCategory c t1
                  = (if c = category_or_other e then Some h' else getHabitByCategory c t)"
    and occ: "lastOccurrences h' = slice_last 10 (lastOccurrences habit @ [ev_start e])"
    and pref: "preferredTimes h' = updatePreferredTimes (preferredTimes habit)
                 \<lparr>dayOfWeek = Some (getDay (ev_start e)), hour = getHours (ev_start e),
                  minute = getMinutes (ev_start e)\<rparr>"
    by auto
  have "habit_bounds habit"
    using bounds mem by simp
  then have "habit_bounds h'"
    using occ pref
    by (simp add: habit_bounds_def length_slice_last length_updatePreferredTimes)
  then have "\<forall>h \<in> set t1. habit_bounds h"
    using bounds set1 by simp
  moreover have "\<forall>c. lastOccurrences_of c t1
                = (if c = category_or_other e
                   then slice_last 10 (lastOccurrences_of c t @ [ev_start e])
                   else lastOccurrences_of c t)"
    using get1 Some occ by (simp add: lastOccurrences_of_def)
  ultimately show ?thesis using ok1 by simp
qed

lemma lastOccurrences_of_bounded:
  assumes "\<forall>h \<in> set t. habit_bounds h"
  shows "length (lastOccurrences_of c t) \<le> 10"
proof (cases "getHabitByCategory c t")
  case None
  then show ?thesis by (simp add: lastOccurrences_of_def)
next
  case (Some h)
  then have "h \<in> set t" using getHabitByCategory_SomeD by blast
  then show ?thesis using assms Some by (simp add: lastOccurrences_of_def habit_bounds_def)
qed

text \<open>
  Claim C6. After a run of \<open>learnFromEvent\<close> calls from a well-formed table whose
  patterns are within the bounds, every pattern has at most 5 preferred times and at most
  10 last occurrences, and the last occurrences of a category are the last 10 of the
  earlier ones followed by the starts of the learned events of that category in the order
  of the calls: the oldest entry is dropped first and the start learned last is last.
  The list is in the order of the calls, not of the instants.
\<close>

theorem learnFromEvents_bounds_and_order:
  assumes "table_ok t" and "\<forall>h \<in> set t. habit_bounds h"
    and "learnFromEvents calls t = Inr t'"
  shows "(\<forall>h \<in> set t'. length (preferredTimes h) \<le> 5 \<and> length (lastOccurrences h) \<le> 10)
         \<and> (\<forall>c. lastOccurrences_of c t'
                = slice_last 10 (lastOccurrences_of c t @ starts_of c calls))"
  using assms
proof (induction calls arbitrary: t)
  case Nil
  then show ?case
    by (simp add: starts_of_def slice_last_short lastOccurrences_of_bounded)
       (simp add: habit_bounds_def)
next
  case (Cons call calls)
  obtain now newId e where call: "call = (now, newId, e)"
    by (cases call) auto
  from Cons.prems(3) call obtain r t1
    where step: "learnFromEvent now newId e t = Inr (r, t1)"
      and run: "learnFromEvents calls t1 = Inr t'"
    by (auto split: sum.splits)
  from learnFromEvent_step [OF Cons.prems(1,2) step]
  have ok1: "table_ok t1" and b1: "\<forall>h \<in> set t1. habit_bounds h"
    and occ1: "\<forall>c. lastOccurrences_of c t1
                = (if c = category_or_other e
                   then slice_last 10 (lastOccurrences_of c t @ [ev_start e])
                   else lastOccurrences_of c t)"
    by simp_all
  from Cons.IH [OF ok1 b1 run]
  have b': "\<forall>h \<in> set t'. length (preferredTimes h) \<le> 5 \<and> length (lastOccurrences h) \<le> 10"
    and occ': "\<forall>c. lastOccurrences_of c t'
                = slice_last 10 (lastOccurrences_of c t1 @ starts_of c calls)"
    by simp_all
  have "lastOccurrences_of c t'
          = slice_last 10 (lastOccurrences_of c t @ starts_of c (call # calls))" for c
  proof (cases "c = category_or_other e")
    case True
    have "lastOccurrences_of c t'
            = slice_last 10 (slice_last 10 (lastOccurrences_of c t @ [ev_start e])
                               @ starts_of c calls)"
      using occ' occ1 True by simp
    also have "\<dots> = slice_last 10 ((lastOccurrences_of c t @ [ev_start e]) @ starts_of c calls)"
      by (rule slice_last_append)
    finally show ?thesis
      using True call by (simp add: starts_of_def)
  next
    case False
    then show ?thesis
      using occ' occ1 call by (simp add: starts_of_def)
  qed
  with b' show ?case by simp
qed

lemma learn_later_then_earlier:
  "learnFromEvents
     [(1, ''h1'', \<lparr>ev_id = ''a'', ev_title = ''review'', ev_start = 172800000,
                   ev_end = 174600000, ev_allDay = None, ev_category = Some Work\<rparr>),
      (2, ''h2'', \<lparr>ev_id = ''b'', ev_title = ''standup'', ev_start = 86400000,
                   ev_end = 90000000, ev_allDay = None, ev_category = Some Work\<rparr>)] []
   = Inr [\<lparr>h_id = ''h1'', h_category = Work,
            preferredTimes = [\<lparr>dayOfWeek = Some 6, hour = 0, minute = 0\<rparr>,
                              \<lparr>dayOfWeek = Some 5, hour = 0, minute = 0\<rparr>],
            avgDuration = 45, frequency = Weekly,
            lastOccurrences = [172800000, 86400000], eventCount = 2,
            createdAt = 1, updatedAt = 2\<rparr>]"
  by code_simp

theorem learnFromEvents_bounds_and_order_witness:
  "learnFromEvents
     [(1, ''h1'', \<lparr>ev_id = ''a'', ev_title = ''review'', ev_start = 172800000,
                   ev_end = 174600000, ev_allDay = None, ev_category = Some Work\<rparr>),
      (2, ''h2'', \<lparr>ev_id = ''b'', ev_title = ''standup'', ev_start = 86400000,
                   ev_end = 90000000, ev_allDay = None, ev_category = Some Work\<rparr>)] []
   = Inr [\<lparr>h_id = ''h1'', h_category = Work,
            preferredTimes = [\<lparr>dayOfWeek = Some 6, hour = 0, minute = 0\<rparr>,
                              \<lparr>dayOfWeek = Some 5, hour = 0, minute = 0\<rparr>],
            avgDuration = 45, frequency = Weekly,
            lastOccurrences = [172800000, 86400000], eventCount = 2,
            createdAt = 1, updatedAt = 2\<rparr>]
   \<and> lastOccurrences_of Work
        [\<lparr>h_id = ''h1'', h_category = Work,
            preferredTimes = [\<lparr>dayOfWeek = Some 6, hour = 0, minute = 0\<rparr>,
                              \<lparr>dayOfWeek = Some 5, hour = 0, minute = 0\<rparr>],
            avgDuration = 45, frequency = Weekly,
            lastOccurrences = [172800000, 86400000], eventCount = 2,
            createdAt = 1, updatedAt = 2\<rparr>]
       = slice_last 10 [172800000, 86400000]"
proof -
  have ok: "table_ok []" and b: "\<forall>h \<in> set ([] :: HabitTable). habit_bounds h"
    by (simp_all add: table_ok_def)
  from learnFromEvents_bounds_and_order [OF ok b learn_later_then_earlier,
      THEN conjunct2, THEN spec, of Work]
  show ?thesis
    using learn_later_then_earlier
    by (simp add: starts_of_def category_or_other_def lastOccurrences_of_def
          getHabitByCategory_def table_where_category_first_def
          del: learnFromEvents.simps)
qed

text \<open>
  Learning an event that starts on day 2 and then one that starts on day 1 leaves the later
  instant first: the list is not in chronological order and its last entry is not the most
  recent start.
\<close>

theorem lastOccurrences_not_chronological:
  "learnFromEvents
     [(1, ''h1'', \<lparr>ev_id = ''a'', ev_title = ''review'', ev_start = 172800000,
                   ev_end = 174600000, ev_allDay = None, ev_category = Some Work\<rparr>),
      (2, ''h2'', \<lparr>ev_id = ''b'', ev_title = ''standup'', ev_start = 86400000,
                   ev_end = 90000000, ev_allDay = None, ev_category = Some Work\<rparr>)] []
   = Inr [\<lparr>h_id = ''h1'', h_category = Work,
            preferredTimes = [\<lparr>dayOfWeek = Some 6, hour = 0, minute = 0\<rparr>,
                              \<lparr>dayOfWeek = Some 5, hour = 0, minute = 0\<rparr>],
            avgDuration = 45, frequency = Weekly,
            lastOccurrences = [172800000, 86400000], eventCount = 2,
            createdAt = 1, updatedAt = 2\<rparr>]
   \<and> \<not> sorted [172800000, 86400000 :: int]
   \<and> last [172800000, 86400000 :: int] < Max (set [172800000, 86400000])"
  using learn_later_then_earlier by simp

text \<open>
  Claim C9. Without a pattern for the category, \<open>getAvgDurationForCategory\<close> returns 60
  and \<open>getSuggestedTimeForCategory\<close> returns null; with a pattern,
  \<open>getAvgDurationForCategory\<close> returns its average duration when that is not 0 and 60
  when it is 0; \<open>analyzeHabitFrequency\<close> returns weekly for an unknown habit and for one
  with fewer than 2 recorded occurrences.
\<close>

theorem query_defaults:
  "(getHabitByCategory c t = None
      \<longrightarrow> getAvgDurationForCategory c t = 60 \<and> getSuggestedTimeForCategory c date t = None)
   \<and> (getHabitByCategory c t = Some h
      \<longrightarrow> getAvgDurationForCategory c t = (if avgDuration h = 0 then 60 else avgDuration h))
   \<and> (getHabit i t = None \<or> (\<exists>h'. getHabit i t = Some h' \<and> length (lastOccurrences h') < 2)
      \<longrightarrow> analyzeHabitFrequency i t = Weekly)"
  by (auto simp: getAvgDurationForCategory_def getSuggestedTimeForCategory_def
        analyzeHabitFrequency_def)

lemma learn_zero_duration:
  "learnFromEvent 1 ''h1''
     \<lparr>ev_id = ''a'', ev_title = ''ping'', ev_start = 36000000, ev_end = 36000000,
       ev_allDay = None, ev_category = Some Work\<rparr> []
   = Inr (Some \<lparr>h_id = ''h1'', h_category = Work,
                 preferredTimes = [\<lparr>dayOfWeek = Some 4, hour = 10, minute = 0\<rparr>],
                 avgDuration = 0, frequency = Weekly, lastOccurrences = [36000000],
                 eventCount = 1, createdAt = 1, updatedAt = 1\<rparr>,
          [\<lparr>h_id = ''h1'', h_category = Work,
                 preferredTimes = [\<lparr>dayOfWeek = Some 4, hour = 10, minute = 0\<rparr>],
                 avgDuration = 0, frequency = Weekly, lastOccurrences = [36000000],
                 eventCount = 1, createdAt = 1, updatedAt = 1\<rparr>])"
  by code_simp

text \<open>
  A pattern learned from one event of zero duration has the average 0, and the query
  returns 60 for its category.
\<close>

theorem getAvgDuration_zero_average:
  "learnFromEvent 1 ''h1''
     \<lparr>ev_id = ''a'', ev_title = ''ping'', ev_start = 36000000, ev_end = 36000000,
       ev_allDay = None, ev_category = Some Work\<rparr> []
   = Inr (Some \<lparr>h_id = ''h1'', h_category = Work,
                 preferredTimes = [\<lparr>dayOfWeek = Some 4, hour = 10, minute = 0\<rparr>],
                 avgDuration = 0, frequency = Weekly, lastOccurrences = [36000000],
                 eventCount = 1, createdAt = 1, updatedAt = 1\<rparr>,
          [\<lparr>h_id = ''h1'', h_category = Work,
                 preferredTimes = [\<lparr>dayOfWeek = Some 4, hour = 10, minute = 0\<rparr>],
                 avgDuration = 0, frequency = Weekly, lastOccurrences = [36000000],
                 eventCount = 1, createdAt = 1, updatedAt = 1\<rparr>])
   \<and> getHabitByCategory Work
        [\<lparr>h_id = ''h1'', h_category = Work,
                 preferredTimes = [\<lparr>dayOfWeek = Some 4, hour = 10, minute = 0\<rparr>],
                 avgDuration = 0, frequency = Weekly, lastOccurrences = [36000000],
                 eventCount = 1, createdAt = 1, updatedAt = 1\<rparr>]
       = Some \<lparr>h_id = ''h1'', h_category = Work,
                 preferredTimes = [\<lparr>dayOfWeek = Some 4, hour = 10, minute = 0\<rparr>],
                 avgDuration = 0, frequency = Weekly, lastOccurrences = [36000000],
                 eventCount = 1, createdAt = 1, updatedAt = 1\<rparr>
   \<and> getAvgDurationForCategory Work
        [\<lparr>h_id = ''h1'', h_category = Work,
                 preferredTimes = [\<lparr>dayOfWeek = Some 4, hour = 10, minute = 0\<rparr>],
                 avgDuration = 0, frequency = Weekly, lastOccurrences = [36000000],
                 eventCount = 1, createdAt = 1, updatedAt = 1\<rparr>]
       = 60"
  using learn_zero_duration
  by (simp add: getAvgDurationForCategory_def getHabitByCategory_def
        table_where_category_first_def)

theorem query_defaults_witness:
  "getAvgDurationForCategory Health [] = 60
   \<and> getSuggestedTimeForCategory Health 0 [] = None
   \<and> getAvgDurationForCategory Work
        [\<lparr>h_id = ''h1'', h_category = Work,
          preferredTimes = [\<lparr>dayOfWeek = Some 4, hour = 10, minute = 0\<rparr>],
          avgDuration = 25, frequency = Weekly, lastOccurrences = [36000000],
          eventCount = 1, createdAt = 1, updatedAt = 1\<rparr>] = 25
   \<and> analyzeHabitFrequency ''h7''
        [\<lparr>h_id = ''h1'', h_category = Work,
          preferredTimes = [\<lparr>dayOfWeek = Some 4, hour = 10, minute = 0\<rparr>],
          avgDuration = 25, frequency = Weekly, lastOccurrences = [36000000],
          eventCount = 1, createdAt = 1, updatedAt = 1\<rparr>] = Weekly
   \<and> analyzeHabitFrequency ''h1''
        [\<lparr>h_id = ''h1'', h_category = Work,
          preferredTimes = [\<lparr>dayOfWeek = Some 4, hour = 10, minute = 0\<rparr>],
          avgDuration = 25, frequency = Weekly, lastOccurrences = [36000000],
          eventCount = 1, createdAt = 1, updatedAt = 1\<rparr>] = Weekly"
proof -
  let ?h = "\<lparr>h_id = ''h1'', h_category = Work,
          preferredTimes = [\<lparr>dayOfWeek = Some 4, hour = 10, minute = 0\<rparr>],
          avgDuration = 25, frequency = Weekly, lastOccurrences = [36000000],
          eventCount = 1, createdAt = 1, updatedAt = 1\<rparr>"
  have g0: "getHabitByCategory Health [] = None"
    and g1: "getHabitByCategory Work [?h] = Some ?h"
    by (simp_all add: getHabitByCategory_def table_where_category_first_def)
  have i0: "getHabit ''h7'' [?h] = None" and i1: "getHabit ''h1'' [?h] = Some ?h"
    by (simp_all add: getHabit_def table_get_def)
  have a: "getAvgDurationForCategory Health [] = 60
           \<and> getSuggestedTimeForCategory Health 0 [] = None"
    using query_defaults [where c = Health and t = "[]" and date = 0,
        THEN conjunct1, THEN mp, OF g0] .
  have b: "getAvgDurationForCategory Work [?h] = 25"
    using query_defaults [where c = Work and t = "[?h]" and h = ?h,
        THEN conjunct2, THEN conjunct1, THEN mp, OF g1] by simp
  have c: "analyzeHabitFrequency ''h7'' [?h] = Weekly"
    using query_defaults [where i = "''h7''" and t = "[?h]",
        THEN conjunct2, THEN conjunct2, THEN mp] i0 by blast
  have d: "analyzeHabitFrequency ''h1'' [?h] = Weekly"
    using query_defaults [where i = "''h1''" and t = "[?h]",
        THEN conjunct2, THEN conjunct2, THEN mp] i1 by simp
  from a b c d show ?thesis by simp
qed

section \<open>The slot scorer\<close>

lemma preferredTimes_loop_eq:
  "preferredTimes_loop category slotHour slotDayOfWeek ps (s, r)
     = (s + sum_list (map (preferred_bonus slotHour slotDayOfWeek) ps),
        r @ concat (map (preferred_reasons category slotHour slotDayOfWeek) ps))"
  by (induction ps arbitrary: s r)
     (simp_all add: Let_def preferred_bonus_def preferred_reasons_def)

lemma preferred_bonus_nonneg: "0 \<le> preferred_bonus slotHour slotDayOfWeek p"
  by (simp add: preferred_bonus_def)

lemma nested_if: "(if a then (if b then x else y) else y) = (if a \<and> b then x else y)"
  by simp

lemma bonus_step:
  "(if c then (s + b, r @ x) else (s, r))
     = (s + (if c then b else 0 :: rat), r @ (if c then x else []))"
  by simp

lemma suggestion_for_eq:
  "suggestion_for desiredDuration categoryHabit category slot0
     = \<lparr>slot = trimmed_slot desiredDuration slot0,
        score = expected_score desiredDuration categoryHabit category slot0,
        reasons = expected_reasons desiredDuration categoryHabit category slot0\<rparr>"
proof -
  have start: "(case categoryHabit of
               Some h \<Rightarrow> preferredTimes_loop category (getHours (fs_start slot0))
                           (getDay (fs_start slot0)) (preferredTimes h) (1 / 2, [])
             | None \<Rightarrow> (1 / 2, []))
        = (1 / 2 + sum_list (map (preferred_bonus (getHours (fs_start slot0))
                                    (getDay (fs_start slot0)))
                               (preferredTimes_of categoryHabit)),
           concat (map (preferred_reasons category (getHours (fs_start slot0))
                          (getDay (fs_start slot0))) (preferredTimes_of categoryHabit)))"
    by (cases categoryHabit) (simp_all add: preferredTimes_loop_eq preferredTimes_of_def)
  show ?thesis
    unfolding suggestion_for_def Let_def start
    apply (simp only: bonus_step prod.case nested_if)
    apply (simp add: expected_score_def expected_reasons_def
      heuristic_bonus_def heuristic_reasons_def buffer_bonus_def buffer_reasons_def
      trimmed_slot_def addMinutes_def millisecondsInMinute_def add.assoc
      split del: if_split cong: if_cong)
    done
qed

lemma suggestion_for_score:
  "score (suggestion_for desiredDuration categoryHabit category slot0)
     = expected_score desiredDuration categoryHabit category slot0"
  by (simp add: suggestion_for_eq)

lemma suggestion_for_reasons:
  "reasons (suggestion_for desiredDuration categoryHabit category slot0)
     = expected_reasons desiredDuration categoryHabit category slot0"
  by (simp add: suggestion_for_eq)

lemma suggestion_for_slot:
  "slot (suggestion_for desiredDuration categoryHabit category slot0)
     = trimmed_slot desiredDuration slot0"
  by (simp add: suggestion_for_eq)

lemma expected_score_bounds:
  "1 / 2 \<le> expected_score desiredDuration categoryHabit category slot0
   \<and> expected_score desiredDuration categoryHabit category slot0 \<le> 1"
proof -
  have "0 \<le> sum_list (map (preferred_bonus (getHours (fs_start slot0))
                               (getDay (fs_start slot0))) (preferredTimes_of categoryHabit))"
    by (rule sum_list_nonneg) (auto simp: preferred_bonus_nonneg)
  moreover have "0 \<le> heuristic_bonus category (getHours (fs_start slot0))"
    by (simp add: heuristic_bonus_def)
  moreover have "0 \<le> buffer_bonus desiredDuration slot0"
    by (simp add: buffer_bonus_def)
  ultimately show ?thesis
    unfolding expected_score_def by simp
qed

lemma slots_loop_eq:
  "slots_loop desiredDuration categoryHabit category slots acc
     = acc @ map (suggestion_for desiredDuration categoryHabit category)
               (filter (\<lambda>x. desiredDuration \<le> fs_duration x) slots)"
  by (induction slots arbitrary: acc) (simp_all add: not_less)

lemma sorted_descending_sort_key:
  "sorted_wrt (\<lambda>a b. score a \<ge> score b) (sort_key (\<lambda>s. - score s) xs)"
proof -
  have "sorted (map (\<lambda>s. - score s) (sort_key (\<lambda>s. - score s) xs))"
    by (rule sorted_sort_key)
  then show ?thesis
    by (simp add: sorted_map sorted_wrt_iff_nth_less)
qed

text \<open>
  Claim C5. Every suggestion of \<open>suggestBestTimes\<close> has a score between 0.5 and 1, and
  its slot has the desired duration, starts where a candidate free slot of at least that
  duration starts, and ends the desired number of minutes later. The slots of the
  suggestions are exactly the candidates of at least the desired duration, each cut to
  that duration (shorter candidates are dropped), and the suggestions are in descending
  order of score.
\<close>

theorem suggestBestTimes_scores_and_slots:
  "(\<forall>s \<in> set (suggestBestTimes freeSlots desiredDuration habits category).
       1 / 2 \<le> score s \<and> score s \<le> 1
       \<and> fs_duration (slot s) = desiredDuration
       \<and> fs_end (slot s) = fs_start (slot s) + desiredDuration * 60000
       \<and> (\<exists>slot0 \<in> set freeSlots. desiredDuration \<le> fs_duration slot0
              \<and> fs_start (slot s) = fs_start slot0))
   \<and> mset (map slot (suggestBestTimes freeSlots desiredDuration habits category))
       = mset (map (trimmed_slot desiredDuration)
                 (filter (\<lambda>x. desiredDuration \<le> fs_duration x) freeSlots))
   \<and> sorted_wrt (\<lambda>a b. score a \<ge> score b)
        (suggestBestTimes freeSlots desiredDuration habits category)"
proof (intro conjI ballI)
  fix s assume "s \<in> set (suggestBestTimes freeSlots desiredDuration habits category)"
  then obtain slot0 where s: "s = suggestion_for desiredDuration
      (find (\<lambda>h. Some (h_category h) = category) habits) category slot0"
    and mem: "slot0 \<in> set freeSlots" and long: "desiredDuration \<le> fs_duration slot0"
    by (auto simp: suggestBestTimes_def Let_def slots_loop_eq)
  show "1 / 2 \<le> score s"
    unfolding s using expected_score_bounds by (simp add: suggestion_for_score)
  show "score s \<le> 1"
    unfolding s using expected_score_bounds by (simp add: suggestion_for_score)
  show "fs_duration (slot s) = desiredDuration"
    unfolding s by (simp add: suggestion_for_slot trimmed_slot_def)
  show "fs_end (slot s) = fs_start (slot s) + desiredDuration * 60000"
    unfolding s by (simp add: suggestion_for_slot trimmed_slot_def)
  show "\<exists>slot0 \<in> set freeSlots. desiredDuration \<le> fs_duration slot0
              \<and> fs_start (slot s) = fs_start slot0"
    using mem long unfolding s by (auto simp: suggestion_for_slot trimmed_slot_def)
next
  let ?found = "find (\<lambda>h. Some (h_category h) = category) habits"
  let ?kept = "filter (\<lambda>x. desiredDuration \<le> fs_duration x) freeSlots"
  have "suggestBestTimes freeSlots desiredDuration habits category
          = sort_key (\<lambda>s. - score s)
              (map (suggestion_for desiredDuration ?found category) ?kept)"
    by (simp add: suggestBestTimes_def Let_def slots_loop_eq)
  moreover have "mset (map slot (sort_key (\<lambda>s. - score s) ys)) = mset (map slot ys)"
    for ys :: "TimeSuggestion list"
    by simp
  moreover have "map slot (map (suggestion_for desiredDuration ?found category) ?kept)
           = map (trimmed_slot desiredDuration) ?kept"
    by (simp add: suggestion_for_slot)
  ultimately show "mset (map slot (suggestBestTimes freeSlots desiredDuration habits category))
       = mset (map (trimmed_slot desiredDuration) ?kept)"
    by (simp only:)
next
  show "sorted_wrt (\<lambda>a b. score a \<ge> score b)
        (suggestBestTimes freeSlots desiredDuration habits category)"
    by (simp add: suggestBestTimes_def Let_def sorted_descending_sort_key)
qed


lemma length_preferred_reasons:
  "length (concat (map (preferred_reasons category slotHour slotDayOfWeek) ps))
     + length (filter (\<lambda>p. \<bar>hour p - slotHour\<bar> = 2) ps)
   = length (filter (\<lambda>p. dayOfWeek p = Some slotDayOfWeek) ps)
     + length (filter (\<lambda>p. \<bar>hour p - slotHour\<bar> \<le> 2) ps)"
  by (induction ps) (auto simp: preferred_reasons_def)

lemma length_heuristic_reasons:
  "length (heuristic_reasons category slotHour)
     = (if heuristic_bonus category slotHour = 0 then 0 else 1)"
  by (auto simp: heuristic_reasons_def heuristic_bonus_def)

lemma length_buffer_reasons:
  "length (buffer_reasons desiredDuration slot0)
     = (if buffer_bonus desiredDuration slot0 = 0 then 0 else 1)"
  by (simp add: buffer_reasons_def buffer_bonus_def)

lemma length_expected_reasons:
  "length (expected_reasons desiredDuration categoryHabit category slot0)
     + bonuses_without_reason categoryHabit slot0
   = bonuses_applied desiredDuration categoryHabit category slot0"
  using length_preferred_reasons [of category "getHours (fs_start slot0)"
      "getDay (fs_start slot0)" "preferredTimes_of categoryHabit"]
  by (simp add: expected_reasons_def bonuses_without_reason_def bonuses_applied_def Let_def
        length_heuristic_reasons length_buffer_reasons)

text \<open>
  Every candidate of at least the desired duration gives one suggestion, and its reasons
  are, in the order of evaluation, those of the preferred times (weekday match, then hour
  within 1), of the category heuristic and of the buffer; there is no other suggestion.
  With \<open>length_expected_reasons\<close>, the addition of 0.1 for a preferred hour at distance 2 is
  the only addition to the score that comes without a reason.
\<close>

lemma reasons_of_candidates:
  "mset (map (\<lambda>s. (slot s, reasons s))
           (suggestBestTimes freeSlots desiredDuration habits category))
     = mset (map (\<lambda>slot0. (trimmed_slot desiredDuration slot0,
                             expected_reasons desiredDuration
                               (find (\<lambda>h. Some (h_category h) = category) habits)
                               category slot0))
               (filter (\<lambda>x. desiredDuration \<le> fs_duration x) freeSlots))"
proof -
  let ?found = "find (\<lambda>h. Some (h_category h) = category) habits"
  let ?kept = "filter (\<lambda>x. desiredDuration \<le> fs_duration x) freeSlots"
  let ?view = "\<lambda>s :: TimeSuggestion. (slot s, reasons s)"
  have run: "suggestBestTimes freeSlots desiredDuration habits category
          = sort_key (\<lambda>s. - score s)
              (map (suggestion_for desiredDuration ?found category) ?kept)"
    by (simp add: suggestBestTimes_def Let_def slots_loop_eq)
  have perm: "mset (map ?view (sort_key (\<lambda>s. - score s) ys)) = mset (map ?view ys)"
    for ys :: "TimeSuggestion list"
    by simp
  have each: "map ?view (map (suggestion_for desiredDuration ?found category) ?kept)
           = map (\<lambda>slot0. (trimmed_slot desiredDuration slot0,
                             expected_reasons desiredDuration ?found category slot0)) ?kept"
    by (simp add: suggestion_for_slot suggestion_for_reasons)
  show ?thesis
    unfolding run perm each ..
qed

lemma suggest_two_slots:
  "suggestBestTimes
     [\<lparr>fs_start = 46800000, fs_end = 54000000, fs_duration = 120\<rparr>,
      \<lparr>fs_start = 57600000, fs_end = 60300000, fs_duration = 45\<rparr>,
      \<lparr>fs_start = 118800000, fs_end = 122400000, fs_duration = 60\<rparr>]
     60
     [\<lparr>h_id = ''h1'', h_category = Work,
       preferredTimes = [\<lparr>dayOfWeek = Some 5, hour = 10, minute = 30\<rparr>],
       avgDuration = 50, frequency = Weekly, lastOccurrences = [36000000],
       eventCount = 1, createdAt = 1, updatedAt = 1\<rparr>]
     (Some Work)
   = [\<lparr>slot = \<lparr>fs_start = 118800000, fs_end = 122400000, fs_duration = 60\<rparr>,
       score = 19 / 20,
       reasons = [''You often schedule work events on this day'',
                  ''This matches your usual time for work tasks'',
                  ''Morning hours are great for focused work'']\<rparr>,
      \<lparr>slot = \<lparr>fs_start = 46800000, fs_end = 50400000, fs_duration = 60\<rparr>,
       score = 3 / 5,
       reasons = [''Extra buffer time available'']\<rparr>]"
  by code_simp

theorem suggestBestTimes_scores_and_slots_witness:
  "(1 / 2 :: rat) \<le> 19 / 20 \<and> (19 / 20 :: rat) \<le> 1
   \<and> mset (map slot (suggestBestTimes
     [\<lparr>fs_start = 46800000, fs_end = 54000000, fs_duration = 120\<rparr>,
      \<lparr>fs_start = 57600000, fs_end = 60300000, fs_duration = 45\<rparr>,
      \<lparr>fs_start = 118800000, fs_end = 122400000, fs_duration = 60\<rparr>]
     60
     [\<lparr>h_id = ''h1'', h_category = Work,
       preferredTimes = [\<lparr>dayOfWeek = Some 5, hour = 10, minute = 30\<rparr>],
       avgDuration = 50, frequency = Weekly, lastOccurrences = [36000000],
       eventCount = 1, createdAt = 1, updatedAt = 1\<rparr>]
     (Some Work)))
     = {#\<lparr>fs_start = 46800000, fs_end = 50400000, fs_duration = 60\<rparr>,
         \<lparr>fs_start = 118800000, fs_end = 122400000, fs_duration = 60\<rparr>#}
   \<and> sorted_wrt (\<lambda>a b. score a \<ge> score b) (suggestBestTimes
     [\<lparr>fs_start = 46800000, fs_end = 54000000, fs_duration = 120\<rparr>,
      \<lparr>fs_start = 57600000, fs_end = 60300000, fs_duration = 45\<rparr>,
      \<lparr>fs_start = 118800000, fs_end = 122400000, fs_duration = 60\<rparr>]
     60
     [\<lparr>h_id = ''h1'', h_category = Work,
       preferredTimes = [\<lparr>dayOfWeek = Some 5, hour = 10, minute = 30\<rparr>],
       avgDuration = 50, frequency = Weekly, lastOccurrences = [36000000],
       eventCount = 1, createdAt = 1, updatedAt = 1\<rparr>]
     (Some Work))"
proof -
  let ?fs = "[\<lparr>fs_start = 46800000, fs_end = 54000000, fs_duration = 120\<rparr>,
      \<lparr>fs_start = 57600000, fs_end = 60300000, fs_duration = 45\<rparr>,
      \<lparr>fs_start = 118800000, fs_end = 122400000, fs_duration = 60\<rparr>]"
  let ?hs = "[\<lparr>h_id = ''h1'', h_category = Work,
       preferredTimes = [\<lparr>dayOfWeek = Some 5, hour = 10, minute = 30\<rparr>],
       avgDuration = 50, frequency = Weekly, lastOccurrences = [36000000],
       eventCount = 1, createdAt = 1, updatedAt = 1\<rparr>]"
  let ?best = "\<lparr>slot = \<lparr>fs_start = 118800000, fs_end = 122400000, fs_duration = 60\<rparr>,
       score = 19 / 20,
       reasons = [''You often schedule work events on this day'',
                  ''This matches your usual time for work tasks'',
                  ''Morning hours are great for focused work'']\<rparr>"
  note inst = suggestBestTimes_scores_and_slots [of ?fs 60 ?hs "Some Work"]
  have mem: "?best \<in> set (suggestBestTimes ?fs 60 ?hs (Some Work))"
    unfolding suggest_two_slots by simp
  have "1 / 2 \<le> score ?best \<and> score ?best \<le> 1"
    using inst [THEN conjunct1, THEN bspec, OF mem] by blast
  moreover have "mset (map slot (suggestBestTimes ?fs 60 ?hs (Some Work)))
      = mset (map (trimmed_slot 60) (filter (\<lambda>x. 60 \<le> fs_duration x) ?fs))"
    using inst [THEN conjunct2, THEN conjunct1] .
  moreover have "sorted_wrt (\<lambda>a b. score a \<ge> score b) (suggestBestTimes ?fs 60 ?hs (Some Work))"
    using inst [THEN conjunct2, THEN conjunct2] .
  ultimately show ?thesis
    by (simp add: trimmed_slot_def)
qed

text \<open>
  Claim C8. Every bonus applied to the score of a slot is to add one reason, the bonus of
  0.1 for a slot hour within 2 of a preferred hour included. The code does not do so for
  that bonus. For a slot at 13:00 on a Thursday and the category work: with a preferred
  time at 11:00 on Fridays the score is 0.5 + 0.1 and the list of reasons is empty; the same
  slot has the score 0.5 and no reason without any habit, and the score 0.5 + 0.2 and one
  reason with a preferred time at 12:00, where the neighbouring branch adds its reason.
\<close>

theorem within_two_bonus_has_no_reason:
  "suggestBestTimes
     [\<lparr>fs_start = 46800000, fs_end = 50400000, fs_duration = 60\<rparr>]
     60
     [\<lparr>h_id = ''h1'', h_category = Work,
       preferredTimes = [\<lparr>dayOfWeek = Some 5, hour = 11, minute = 0\<rparr>],
       avgDuration = 30, frequency = Weekly, lastOccurrences = [126000000],
       eventCount = 1, createdAt = 1, updatedAt = 1\<rparr>]
     (Some Work)
   = [\<lparr>slot = \<lparr>fs_start = 46800000, fs_end = 50400000, fs_duration = 60\<rparr>,
       score = 1 / 2 + 1 / 10,
       reasons = []\<rparr>]
   \<and> suggestBestTimes
     [\<lparr>fs_start = 46800000, fs_end = 50400000, fs_duration = 60\<rparr>]
     60
     []
     (Some Work)
   = [\<lparr>slot = \<lparr>fs_start = 46800000, fs_end = 50400000, fs_duration = 60\<rparr>,
       score = 1 / 2,
       reasons = []\<rparr>]
   \<and> suggestBestTimes
     [\<lparr>fs_start = 46800000, fs_end = 50400000, fs_duration = 60\<rparr>]
     60
     [\<lparr>h_id = ''h1'', h_category = Work,
       preferredTimes = [\<lparr>dayOfWeek = Some 5, hour = 12, minute = 0\<rparr>],
       avgDuration = 30, frequency = Weekly, lastOccurrences = [129600000],
       eventCount = 1, createdAt = 1, updatedAt = 1\<rparr>]
     (Some Work)
   = [\<lparr>slot = \<lparr>fs_start = 46800000, fs_end = 50400000, fs_duration = 60\<rparr>,
       score = 1 / 2 + 2 / 10,
       reasons = [''This matches your usual time for work tasks'']\<rparr>]"
  by code_simp

section \<open>Conflict detection\<close>

lemma map_has_iff: "map_has m k \<longleftrightarrow> map_get m k \<noteq> None"
  by (simp add: map_has_def map_get_def map_of_eq_None_iff)

lemma map_get_set_absent:
  assumes "\<not> map_has m k"
  shows "map_get (map_set m k v) x = (if x = k then Some v else map_get m x)"
proof -
  have "map_of m k = None"
    using assms by (simp add: map_has_def map_of_eq_None_iff)
  then show ?thesis
    using assms by (auto simp: map_set_def map_get_def map_add_def split: option.splits)
qed

lemma fst_map_set_absent:
  "\<not> map_has m k \<Longrightarrow> map fst (map_set m k v) = map fst m @ [k]"
  by (simp add: map_set_def)

text \<open>The guarded \<open>set\<close> that opens an empty entry for a key that has none.\<close>

lemma map_get_ensure:
  "map_get (if \<not> map_has m k then map_set m k [] else m) x
     = (if x = k \<and> map_get m k = None then Some [] else map_get m x)"
  by (auto simp: map_get_set_absent map_has_iff)

lemma fst_ensure:
  "set (map fst (if \<not> map_has m k then map_set m k [] else m)) = insert k (set (map fst m))"
proof (cases "map_has m k")
  case True
  then show ?thesis by (auto simp: map_has_def)
next
  case False
  then show ?thesis by (simp add: map_set_def)
qed

lemma distinct_ensure:
  "distinct (map fst m) \<Longrightarrow> distinct (map fst (if \<not> map_has m k then map_set m k [] else m))"
proof (cases "map_has m k")
  case True
  assume "distinct (map fst m)"
  with True show ?thesis by simp
next
  case False
  assume "distinct (map fst m)"
  with False show ?thesis by (simp add: map_set_def map_has_def)
qed

lemma map_get_get_add:
  "map_get (map_get_add m k x) y
     = (if y = k then map_option (\<lambda>s. set_add s x) (map_get m k) else map_get m y)"
  by (induction m) (auto simp: map_get_add_def map_get_def)

lemma fst_map_get_add: "map fst (map_get_add m k x) = map fst m"
  by (induction m) (auto simp: map_get_add_def)

lemma set_set_add: "set (set_add s x) = insert x (set s)"
  by (auto simp: set_add_def)

text \<open>The keys of the map after a pair has been tracked, and what is stored under them.\<close>

lemma keys_track_conflict:
  "set (map fst (track_conflict a b m)) = insert (ev_id a) (insert (ev_id b) (set (map fst m)))"
  unfolding track_conflict_def Let_def fst_map_get_add
  by (simp only: fst_ensure) auto

lemma distinct_keys_track_conflict:
  "distinct (map fst m) \<Longrightarrow> distinct (map fst (track_conflict a b m))"
  unfolding track_conflict_def Let_def fst_map_get_add
  by (intro distinct_ensure)

lemma neighbours_track_conflict:
  assumes "ev_id a \<noteq> ev_id b"
  shows "neighbours (track_conflict a b m) x
         = neighbours m x \<union> (if x = ev_id a then {ev_id b} else {})
             \<union> (if x = ev_id b then {ev_id a} else {})"
  unfolding neighbours_def track_conflict_def Let_def map_get_get_add map_get_ensure
  using assms by (auto simp: set_set_add split: option.splits if_splits)

lemma map_rel_track_conflict:
  assumes "ev_id a \<noteq> ev_id b"
  shows "map_rel (track_conflict a b m)
         = map_rel m \<union> {(ev_id a, ev_id b), (ev_id b, ev_id a)}"
  using neighbours_track_conflict [OF assms, of m]
  by (auto simp: map_rel_def split: if_splits)


lemma map_ok_track_conflict:
  assumes "ev_id a \<noteq> ev_id b" and "map_ok m"
  shows "map_ok (track_conflict a b m)"
  using assms keys_track_conflict [of a b m] distinct_keys_track_conflict [of m a b]
  unfolding map_ok_def map_rel_track_conflict [OF assms(1)]
  by auto

lemma inner_loop_rel:
  assumes "\<forall>b \<in> set later. ev_id a \<noteq> ev_id b" and "map_ok m"
  shows "map_ok (inner_loop a later m)
         \<and> map_rel (inner_loop a later m)
            = map_rel m \<union> {(ev_id a, ev_id b) | b. b \<in> set later \<and> overlapping a b}
                \<union> {(ev_id b, ev_id a) | b. b \<in> set later \<and> overlapping a b}"
  using assms
proof (induction later arbitrary: m)
  case Nil
  then show ?case by simp
next
  case (Cons b later)
  have ne: "ev_id a \<noteq> ev_id b" and rest: "\<forall>b \<in> set later. ev_id a \<noteq> ev_id b"
    using Cons.prems(1) by simp_all
  show ?case
  proof (cases "overlapping a b")
    case True
    have step: "inner_loop a (b # later) m = inner_loop a later (track_conflict a b m)"
      using True by (simp add: overlapping_def)
    have ok: "map_ok (track_conflict a b m)"
      using map_ok_track_conflict [OF ne Cons.prems(2)] .
    show ?thesis
      unfolding step using Cons.IH [OF rest ok] True
      by (auto simp: map_rel_track_conflict [OF ne])
  next
    case False
    have step: "inner_loop a (b # later) m = inner_loop a later m"
      using False by (simp add: overlapping_def)
    show ?thesis
      unfolding step using Cons.IH [OF rest Cons.prems(2)] False by auto
  qed
qed

lemma outer_loop_rel:
  assumes "distinct (map ev_id xs)" and "map_ok m"
  shows "map_ok (outer_loop xs m) \<and> map_rel (outer_loop xs m) = map_rel m \<union> pair_rel xs"
  using assms
proof (induction xs arbitrary: m)
  case Nil
  then show ?case by simp
next
  case (Cons a later)
  have ne: "\<forall>b \<in> set later. ev_id a \<noteq> ev_id b" and d: "distinct (map ev_id later)"
    using Cons.prems(1) by auto
  from inner_loop_rel [OF ne Cons.prems(2)]
  have ok: "map_ok (inner_loop a later m)"
    and rel: "map_rel (inner_loop a later m)
            = map_rel m \<union> {(ev_id a, ev_id b) | b. b \<in> set later \<and> overlapping a b}
                \<union> {(ev_id b, ev_id a) | b. b \<in> set later \<and> overlapping a b}"
    by simp_all
  show ?case
    using Cons.IH [OF d ok] rel by (simp add: Un_assoc)
qed

lemma overlapping_sym: "overlapping a b = overlapping b a"
  unfolding overlapping_def by (rule areIntervalsOverlapping_sym)

lemma pair_rel_eq:
  assumes "distinct (map ev_id xs)"
  shows "pair_rel xs = {(ev_id a, ev_id b) | a b. a \<in> set xs \<and> b \<in> set xs
                           \<and> ev_id a \<noteq> ev_id b \<and> overlapping a b}"
  using assms
proof (induction xs)
  case Nil
  then show ?case by simp
next
  case (Cons x xs)
  have ne: "\<forall>b \<in> set xs. ev_id x \<noteq> ev_id b" and d: "distinct (map ev_id xs)"
    using Cons.prems by auto
  let ?A = "{(ev_id x, ev_id b) | b. b \<in> set xs \<and> overlapping x b}"
  let ?B = "{(ev_id b, ev_id x) | b. b \<in> set xs \<and> overlapping x b}"
  let ?C = "{(ev_id a, ev_id b) | a b. a \<in> set xs \<and> b \<in> set xs
                           \<and> ev_id a \<noteq> ev_id b \<and> overlapping a b}"
  let ?L = "{(ev_id a, ev_id b) | a b. a \<in> set (x # xs) \<and> b \<in> set (x # xs)
                           \<and> ev_id a \<noteq> ev_id b \<and> overlapping a b}"
  have "?L = ?A \<union> ?B \<union> ?C"
  proof (intro equalityI subsetI)
    fix p assume "p \<in> ?L"
    then obtain a b where p: "p = (ev_id a, ev_id b)"
      and a: "a \<in> set (x # xs)" and b: "b \<in> set (x # xs)"
      and neq: "ev_id a \<noteq> ev_id b" and ov: "overlapping a b"
      by blast
    consider "a = x" "b \<in> set xs" | "b = x" "a \<in> set xs" | "a \<in> set xs" "b \<in> set xs"
      using a b neq by auto
    then show "p \<in> ?A \<union> ?B \<union> ?C"
    proof cases
      case 1
      then have "p \<in> ?A" using p ov by blast
      then show ?thesis by blast
    next
      case 2
      then have "p \<in> ?B" using p ov overlapping_sym [of a b] by blast
      then show ?thesis by blast
    next
      case 3
      then have "p \<in> ?C" using p ov neq by blast
      then show ?thesis by blast
    qed
  next
    fix p assume "p \<in> ?A \<union> ?B \<union> ?C"
    then consider "p \<in> ?A" | "p \<in> ?B" | "p \<in> ?C" by blast
    then show "p \<in> ?L"
    proof cases
      case 1
      then obtain b where "p = (ev_id x, ev_id b)" "b \<in> set xs" "overlapping x b" by blast
      moreover from this ne have "ev_id x \<noteq> ev_id b" by blast
      ultimately show ?thesis by (intro CollectI exI [of _ x] exI [of _ b]) simp
    next
      case 2
      then obtain b where "p = (ev_id b, ev_id x)" "b \<in> set xs" "overlapping x b" by blast
      moreover from this ne have "ev_id b \<noteq> ev_id x" by metis
      moreover from calculation have "overlapping b x" using overlapping_sym by blast
      ultimately show ?thesis by (intro CollectI exI [of _ b] exI [of _ x]) simp
    next
      case 3
      then obtain a b where "p = (ev_id a, ev_id b)" "a \<in> set xs" "b \<in> set xs"
        "ev_id a \<noteq> ev_id b" "overlapping a b" by blast
      then show ?thesis by (intro CollectI exI [of _ a] exI [of _ b]) simp
    qed
  qed
  moreover have "pair_rel (x # xs) = ?A \<union> ?B \<union> ?C"
    using Cons.IH [OF d] by simp
  ultimately show ?case by simp
qed

lemma map_ok_empty: "map_ok []"
  by (simp add: map_ok_def map_rel_def neighbours_def map_get_def)

lemma map_rel_empty: "map_rel [] = {}"
  by (simp add: map_rel_def neighbours_def map_get_def)

lemma related_loop_props:
  assumes "related_loop related (a, q) = (a', q')" and "distinct a"
  shows "distinct a' \<and> set a' = set a \<union> set related
         \<and> set q' = set q \<union> (set related - set a)"
  using assms
proof (induction related arbitrary: a q)
  case Nil
  then show ?case by simp
next
  case (Cons r rest)
  show ?case
  proof (cases "r \<in> set a")
    case True
    then have "related_loop rest (a, q) = (a', q')"
      using Cons.prems(1) by simp
    from Cons.IH [OF this Cons.prems(2)] True show ?thesis by auto
  next
    case False
    then have "related_loop rest (a @ [r], q @ [r]) = (a', q')"
      using Cons.prems(1) by simp
    moreover have "distinct (a @ [r])"
      using False Cons.prems(2) by simp
    ultimately have "distinct a' \<and> set a' = set (a @ [r]) \<union> set rest
         \<and> set q' = set (q @ [r]) \<union> (set rest - set (a @ [r]))"
      by (rule Cons.IH)
    then show ?thesis using False by auto
  qed
qed

lemma neighbours_map_get:
  "map_get m k = Some s \<Longrightarrow> neighbours m k = set s"
  "map_get m k = None \<Longrightarrow> neighbours m k = {}"
  by (simp_all add: neighbours_def)

lemma traverse_closed:
  assumes "set q \<subseteq> set a" and "distinct a"
    and "\<forall>v \<in> set a - set q. neighbours m v \<subseteq> set a"
  shows "distinct (traverse m q a) \<and> set a \<subseteq> set (traverse m q a)
         \<and> (\<forall>v \<in> set (traverse m q a). neighbours m v \<subseteq> set (traverse m q a))
         \<and> set (traverse m q a) \<subseteq> (map_rel m)\<^sup>* `` set a"
  using assms
proof (induction m q a rule: traverse.induct)
  case (1 m a)
  then show ?case by auto
next
  case (2 m c q a)
  show ?case
  proof (cases "map_get m c")
    case None
    have closed: "\<forall>v \<in> set a - set q. neighbours m v \<subseteq> set a"
      using "2.prems"(3) neighbours_map_get(2) [OF None] by auto
    have sub: "set q \<subseteq> set a"
      using "2.prems"(1) by simp
    from "2.IH"(1) [OF None sub "2.prems"(2) closed]
    show ?thesis using None by simp
  next
    case (Some related)
    obtain a' q' where rl: "related_loop related (a, q) = (a', q')"
      by (cases "related_loop related (a, q)") auto
    from related_loop_props [OF rl "2.prems"(2)]
    have d': "distinct a'" and sa': "set a' = set a \<union> set related"
      and sq': "set q' = set q \<union> (set related - set a)"
      by simp_all
    have nb: "neighbours m c = set related"
      using neighbours_map_get(1) [OF Some] .
    have cin: "c \<in> set a"
      using "2.prems"(1) by simp
    have sub: "set q' \<subseteq> set a'"
      using "2.prems"(1) sa' sq' by auto
    have closed: "\<forall>v \<in> set a' - set q'. neighbours m v \<subseteq> set a'"
    proof
      fix v assume v: "v \<in> set a' - set q'"
      then have va: "v \<in> set a" and vq: "v \<notin> set q"
        using sa' sq' by auto
      show "neighbours m v \<subseteq> set a'"
      proof (cases "v = c")
        case True
        then show ?thesis using nb sa' by simp
      next
        case False
        then have "v \<in> set a - set (c # q)" using va vq by simp
        then have "neighbours m v \<subseteq> set a" using "2.prems"(3) by blast
        then show ?thesis using sa' by auto
      qed
    qed
    from "2.IH"(2) [OF Some rl [symmetric] sub d' closed]
    have res: "distinct (traverse m q' a') \<and> set a' \<subseteq> set (traverse m q' a')
         \<and> (\<forall>v \<in> set (traverse m q' a'). neighbours m v \<subseteq> set (traverse m q' a'))
         \<and> set (traverse m q' a') \<subseteq> (map_rel m)\<^sup>* `` set a'" .
    have step: "traverse m (c # q) a = traverse m q' a'"
      using Some rl by simp
    have "set related \<subseteq> (map_rel m)\<^sup>* `` set a"
      using nb cin by (auto simp: map_rel_def)
    then have "set a' \<subseteq> (map_rel m)\<^sup>* `` set a"
      using sa' by auto
    then have "(map_rel m)\<^sup>* `` set a' \<subseteq> (map_rel m)\<^sup>* `` set a"
      by (auto intro: rtrancl_trans)
    then show ?thesis
      unfolding step using res sa' by auto
  qed
qed

lemma closed_contains_reachable:
  assumes "\<forall>v \<in> S. R `` {v} \<subseteq> S" and "k \<in> S"
  shows "R\<^sup>* `` {k} \<subseteq> S"
proof
  fix x assume "x \<in> R\<^sup>* `` {k}"
  then have "(k, x) \<in> R\<^sup>*" by simp
  then show "x \<in> S"
    using assms by (induction rule: rtrancl_induct) auto
qed

lemma traverse_component:
  "distinct (traverse m [k] [k]) \<and> set (traverse m [k] [k]) = (map_rel m)\<^sup>* `` {k}"
proof -
  from traverse_closed [of "[k]" "[k]" m]
  have d: "distinct (traverse m [k] [k])"
    and k: "k \<in> set (traverse m [k] [k])"
    and c: "\<forall>v \<in> set (traverse m [k] [k]). neighbours m v \<subseteq> set (traverse m [k] [k])"
    and r: "set (traverse m [k] [k]) \<subseteq> (map_rel m)\<^sup>* `` {k}"
    by simp_all
  have "\<forall>v \<in> set (traverse m [k] [k]). map_rel m `` {v} \<subseteq> set (traverse m [k] [k])"
    using c by (auto simp: map_rel_def)
  from closed_contains_reachable [OF this k] r d show ?thesis by blast
qed

lemma sym_component_eq:
  assumes "sym R" and "j \<in> R\<^sup>* `` {k}"
  shows "R\<^sup>* `` {j} = R\<^sup>* `` {k}"
proof -
  have kj: "(k, j) \<in> R\<^sup>*" using assms(2) by simp
  then have jk: "(j, k) \<in> R\<^sup>*"
    using sym_rtrancl [OF assms(1)] by (auto dest: symD)
  show ?thesis
    using kj jk by (auto intro: rtrancl_trans)
qed

lemma group_loop_props:
  assumes "sym (map_rel m)"
    and "\<forall>k \<in> processed. (map_rel m)\<^sup>* `` {k} \<subseteq> processed"
    and "\<forall>c \<in> set conflicts. set (c_events c) \<subseteq> processed"
    and "distinct (map (\<lambda>c. set (c_events c)) conflicts)"
    and "\<forall>c \<in> set conflicts. group_conflict c"
  shows "set (map (\<lambda>c. set (c_events c)) (group_loop now m rest processed conflicts))
           = set (map (\<lambda>c. set (c_events c)) conflicts)
             \<union> {(map_rel m)\<^sup>* `` {k} | k. k \<in> fst ` set rest \<and> k \<notin> processed}
         \<and> distinct (map (\<lambda>c. set (c_events c)) (group_loop now m rest processed conflicts))
         \<and> (\<forall>c \<in> set (group_loop now m rest processed conflicts). group_conflict c)"
  using assms
proof (induction rest arbitrary: processed conflicts)
  case Nil
  then show ?case by simp
next
  case (Cons entry rest)
  obtain k ids where entry: "entry = (k, ids)"
    by (cases entry) auto
  show ?case
  proof (cases "k \<in> processed")
    case True
    have step: "group_loop now m (entry # rest) processed conflicts
                  = group_loop now m rest processed conflicts"
      using True entry by simp
    have "{(map_rel m)\<^sup>* `` {j} | j. j \<in> fst ` set (entry # rest) \<and> j \<notin> processed}
            = {(map_rel m)\<^sup>* `` {j} | j. j \<in> fst ` set rest \<and> j \<notin> processed}"
      using True entry by auto
    then show ?thesis
      unfolding step using Cons.IH [OF Cons.prems] by simp
  next
    case False
    let ?grp = "traverse m [k] [k]"
    let ?comp = "(map_rel m)\<^sup>* `` {k}"
    let ?c = "\<lparr>c_id = ''conflict-'' @ string_of_nat (now (length conflicts)) @ ''-''
                            @ string_of_nat (length conflicts),
                   c_events = ?grp,
                   c_type = (if length ?grp > 2 then Overbooking else Overlap),
                   c_severity = (if length ?grp > 3 then High
                         else if length ?grp > 2 then Medium else Low)\<rparr>"
    have grp: "distinct ?grp" "set ?grp = ?comp"
      using traverse_component [of m k] by simp_all
    have step: "group_loop now m (entry # rest) processed conflicts
                  = group_loop now m rest (processed \<union> set ?grp) (conflicts @ [?c])"
      using False entry by (simp add: Let_def)
    have p1: "\<forall>j \<in> processed \<union> set ?grp. (map_rel m)\<^sup>* `` {j} \<subseteq> processed \<union> set ?grp"
    proof
      fix j assume "j \<in> processed \<union> set ?grp"
      then show "(map_rel m)\<^sup>* `` {j} \<subseteq> processed \<union> set ?grp"
      proof
        assume "j \<in> processed"
        then show ?thesis using Cons.prems(2) by blast
      next
        assume "j \<in> set ?grp"
        then have "(map_rel m)\<^sup>* `` {j} = ?comp"
          using sym_component_eq [OF Cons.prems(1)] grp(2) by simp
        then show ?thesis using grp(2) by simp
      qed
    qed
    have p2: "\<forall>c \<in> set (conflicts @ [?c]). set (c_events c) \<subseteq> processed \<union> set ?grp"
      using Cons.prems(3) by auto
    have kin: "k \<in> ?comp" by simp
    have "?comp \<notin> set (map (\<lambda>c. set (c_events c)) conflicts)"
      using Cons.prems(3) False kin by auto
    then have p3: "distinct (map (\<lambda>c. set (c_events c)) (conflicts @ [?c]))"
      using Cons.prems(4) grp(2) by simp
    have p4: "\<forall>c \<in> set (conflicts @ [?c]). group_conflict c"
      using Cons.prems(5) grp(1) by (simp add: group_conflict_def)
    note ih = Cons.IH [OF Cons.prems(1) p1 p2 p3 p4]
    have "{(map_rel m)\<^sup>* `` {j} | j. j \<in> fst ` set (entry # rest) \<and> j \<notin> processed}
            = insert ?comp
                {(map_rel m)\<^sup>* `` {j} | j. j \<in> fst ` set rest \<and> j \<notin> processed \<union> set ?grp}"
      (is "?L = insert ?comp ?R")
    proof (intro equalityI subsetI)
      fix X assume "X \<in> ?L"
      then obtain j where X: "X = (map_rel m)\<^sup>* `` {j}"
        and j: "j \<in> fst ` set (entry # rest)" and np: "j \<notin> processed"
        by blast
      show "X \<in> insert ?comp ?R"
      proof (cases "j \<in> set ?grp")
        case True
        then have "X = ?comp"
          using X sym_component_eq [OF Cons.prems(1)] grp(2) by simp
        then show ?thesis by simp
      next
        case False
        then have "j \<noteq> k" using grp(2) by auto
        then have "j \<in> fst ` set rest" using j entry by auto
        then show ?thesis using X np False by blast
      qed
    next
      fix X assume "X \<in> insert ?comp ?R"
      then show "X \<in> ?L"
        using False entry by auto
    qed
    then show ?thesis
      unfolding step using ih grp(2) by auto
  qed
qed

lemma overlap_graphI:
  assumes "a \<in> set evs" and "b \<in> set evs" and "\<not> isAllDay a" and "\<not> isAllDay b"
    and "ev_id a \<noteq> ev_id b" and "strictly_overlap a b"
  shows "(ev_id a, ev_id b) \<in> overlap_graph evs"
  unfolding overlap_graph_def
  by (rule CollectI, rule exI [of _ a], rule exI [of _ b]) (simp add: assms)

lemma overlap_graphE:
  assumes "(x, y) \<in> overlap_graph evs"
  obtains a b where "x = ev_id a" and "y = ev_id b" and "a \<in> set evs" and "b \<in> set evs"
    and "\<not> isAllDay a" and "\<not> isAllDay b" and "ev_id a \<noteq> ev_id b"
    and "strictly_overlap a b"
proof -
  from assms have "\<exists>a b. (x, y) = (ev_id a, ev_id b) \<and> a \<in> set evs \<and> b \<in> set evs
      \<and> \<not> isAllDay a \<and> \<not> isAllDay b \<and> ev_id a \<noteq> ev_id b \<and> strictly_overlap a b"
    unfolding overlap_graph_def by (rule CollectD)
  then show ?thesis using that by auto
qed

lemma sym_overlap_graph: "sym (overlap_graph evs)"
proof (rule symI)
  fix x y assume "(x, y) \<in> overlap_graph evs"
  then obtain a b where xy: "x = ev_id a" "y = ev_id b" and ab: "a \<in> set evs" "b \<in> set evs"
    "\<not> isAllDay a" "\<not> isAllDay b" "ev_id a \<noteq> ev_id b" and ov: "strictly_overlap a b"
    by (rule overlap_graphE)
  have "strictly_overlap b a"
    using ov by (simp add: strictly_overlap_def)
  then show "(y, x) \<in> overlap_graph evs"
    unfolding xy using ab by (intro overlap_graphI) simp_all
qed

lemma overlapping_strict:
  assumes "ev_start a \<le> ev_end a" and "ev_start b \<le> ev_end b"
  shows "overlapping a b = strictly_overlap a b"
  using assms by (simp add: overlapping_def strictly_overlap_def areIntervalsOverlapping_strict)

lemma conflictMap_rel:
  assumes d: "distinct (map ev_id (filter (\<lambda>e. \<not> isAllDay e) evs))"
    and wf: "\<forall>e \<in> set evs. \<not> isAllDay e \<longrightarrow> ev_start e \<le> ev_end e"
  shows "map_ok (outer_loop (sort_key ev_start (filter (\<lambda>e. \<not> isAllDay e) evs)) [])
         \<and> map_rel (outer_loop (sort_key ev_start (filter (\<lambda>e. \<not> isAllDay e) evs)) [])
             = overlap_graph evs"
proof -
  let ?xs = "sort_key ev_start (filter (\<lambda>e. \<not> isAllDay e) evs)"
  have "mset (map ev_id ?xs) = mset (map ev_id (filter (\<lambda>e. \<not> isAllDay e) evs))"
    by simp
  then have dx: "distinct (map ev_id ?xs)"
    using d mset_eq_imp_distinct_iff by blast
  have sx: "set ?xs = {e \<in> set evs. \<not> isAllDay e}"
    by auto
  from outer_loop_rel [OF dx map_ok_empty]
  have ok: "map_ok (outer_loop ?xs [])" and rel: "map_rel (outer_loop ?xs []) = pair_rel ?xs"
    by (simp_all add: map_rel_empty)
  have "pair_rel ?xs = overlap_graph evs"
    unfolding pair_rel_eq [OF dx] sx overlap_graph_def
    using wf overlapping_strict by blast
  with ok rel show ?thesis by simp
qed

lemma detectConflicts_groups:
  assumes d: "distinct (map ev_id (filter (\<lambda>e. \<not> isAllDay e) evs))"
    and wf: "\<forall>e \<in> set evs. \<not> isAllDay e \<longrightarrow> ev_start e \<le> ev_end e"
  shows "set (map (\<lambda>c. set (c_events c)) (detectConflicts now evs))
           = {(overlap_graph evs)\<^sup>* `` {k} | k. k \<in> Domain (overlap_graph evs)}
         \<and> distinct (map (\<lambda>c. set (c_events c)) (detectConflicts now evs))
         \<and> (\<forall>c \<in> set (detectConflicts now evs). group_conflict c)"
proof -
  let ?m = "outer_loop (sort_key ev_start (filter (\<lambda>e. \<not> isAllDay e) evs)) []"
  from conflictMap_rel [OF d wf]
  have ok: "map_ok ?m" and rel: "map_rel ?m = overlap_graph evs"
    by simp_all
  have keys: "fst ` set ?m = Domain (overlap_graph evs)"
    using ok rel by (simp add: map_ok_def)
  have sym: "sym (map_rel ?m)"
    unfolding rel by (rule sym_overlap_graph)
  have run: "detectConflicts now evs = group_loop now ?m ?m {} []"
    by (simp add: detectConflicts_def Let_def)
  from group_loop_props [OF sym, of "{}" "[]" now ?m]
  show ?thesis
    unfolding run rel keys by simp
qed

lemma component_without_edge:
  assumes "k \<notin> Domain R"
  shows "R\<^sup>* `` {k} = {k}"
proof -
  have "x = k" if "(k, x) \<in> R\<^sup>*" for x
    using that assms by (induction rule: converse_rtrancl_induct) auto
  then show ?thesis by auto
qed

lemma finite_overlap_graph: "finite (overlap_graph evs)"
proof -
  have "overlap_graph evs \<subseteq> (ev_id ` set evs) \<times> (ev_id ` set evs)"
    by (auto simp: overlap_graph_def)
  then show ?thesis
    by (rule finite_subset) simp
qed

lemma finite_component: "finite ((overlap_graph evs)\<^sup>* `` {k})"
proof -
  have "(overlap_graph evs)\<^sup>* `` {k} \<subseteq> insert k (Range (overlap_graph evs))"
    by (auto elim: rtranclE)
  moreover have "finite (Range (overlap_graph evs))"
    using finite_overlap_graph by (rule finite_Range)
  ultimately show ?thesis
    by (meson finite_insert finite_subset)
qed

lemma component_with_edge:
  assumes "k \<in> Domain (overlap_graph evs)"
  shows "2 \<le> card ((overlap_graph evs)\<^sup>* `` {k})"
proof -
  from assms obtain j where e: "(k, j) \<in> overlap_graph evs" by blast
  then have "k \<noteq> j" by (auto simp: overlap_graph_def)
  moreover have "{k, j} \<subseteq> (overlap_graph evs)\<^sup>* `` {k}"
    using e by auto
  ultimately show ?thesis
    using card_mono [OF finite_component, of "{k, j}" evs k] by simp
qed

lemma components_of_size_two:
  "{C \<in> components evs. 2 \<le> card C}
     = {(overlap_graph evs)\<^sup>* `` {k} | k. k \<in> Domain (overlap_graph evs)}"
proof (intro equalityI subsetI)
  fix C assume "C \<in> {C \<in> components evs. 2 \<le> card C}"
  then obtain i where C: "C = (overlap_graph evs)\<^sup>* `` {i}" and big: "2 \<le> card C"
    by (auto simp: components_def component_of_def)
  have "i \<in> Domain (overlap_graph evs)"
  proof (rule ccontr)
    assume "i \<notin> Domain (overlap_graph evs)"
    then have "C = {i}" using C component_without_edge by metis
    then show False using big by simp
  qed
  then show "C \<in> {(overlap_graph evs)\<^sup>* `` {k} | k. k \<in> Domain (overlap_graph evs)}"
    using C by blast
next
  fix C assume "C \<in> {(overlap_graph evs)\<^sup>* `` {k} | k. k \<in> Domain (overlap_graph evs)}"
  then obtain k where C: "C = (overlap_graph evs)\<^sup>* `` {k}"
    and k: "k \<in> Domain (overlap_graph evs)"
    by blast
  have "k \<in> ev_id ` {e \<in> set evs. \<not> isAllDay e}"
    using k by (auto simp: overlap_graph_def)
  then have "C \<in> components evs"
    using C by (auto simp: components_def component_of_def)
  then show "C \<in> {C \<in> components evs. 2 \<le> card C}"
    using C component_with_edge [OF k] by simp
qed

text \<open>
  Claim C2. For events whose timed ids are unique and whose intervals are well formed,
  the member sets of the conflicts of \<open>detectConflicts\<close> are exactly the components of
  size at least 2 of the strict-overlap graph over the events that are not all-day, each
  exactly once; a conflict lists its members without repetition, has at least 2, has
  severity low for 2, medium for 3 and high for 4 or more, and type overbooking exactly for
  more than 2 (overlap for 2); and when a overlaps b and b overlaps c, one conflict holds
  all three.
\<close>

theorem detectConflicts_components:
  assumes d: "distinct (map ev_id (filter (\<lambda>e. \<not> isAllDay e) events))"
    and wf: "\<forall>e \<in> set events. \<not> isAllDay e \<longrightarrow> ev_start e \<le> ev_end e"
  shows "set (map (\<lambda>c. set (c_events c)) (detectConflicts now events))
           = {C \<in> components events. 2 \<le> card C}
         \<and> distinct (map (\<lambda>c. set (c_events c)) (detectConflicts now events))
         \<and> (\<forall>c \<in> set (detectConflicts now events).
               distinct (c_events c) \<and> 2 \<le> card (set (c_events c))
               \<and> c_severity c = (if card (set (c_events c)) = 2 then Low
                                 else if card (set (c_events c)) = 3 then Medium else High)
               \<and> (c_type c = Overbooking \<longleftrightarrow> card (set (c_events c)) > 2)
               \<and> (c_type c = Overlap \<longleftrightarrow> card (set (c_events c)) = 2))
         \<and> (\<forall>a \<in> set events. \<forall>b \<in> set events. \<forall>c \<in> set events.
               \<not> isAllDay a \<and> \<not> isAllDay b \<and> \<not> isAllDay c
               \<and> ev_id a \<noteq> ev_id b \<and> ev_id b \<noteq> ev_id c
               \<and> strictly_overlap a b \<and> strictly_overlap b c
               \<longrightarrow> (\<exists>g \<in> set (detectConflicts now events).
                      {ev_id a, ev_id b, ev_id c} \<subseteq> set (c_events g)))"
proof -
  from detectConflicts_groups [OF d wf, of now]
  have sets: "set (map (\<lambda>c. set (c_events c)) (detectConflicts now events))
           = {(overlap_graph events)\<^sup>* `` {k} | k. k \<in> Domain (overlap_graph events)}"
    and dist: "distinct (map (\<lambda>c. set (c_events c)) (detectConflicts now events))"
    and shape: "\<forall>c \<in> set (detectConflicts now events). group_conflict c"
    by simp_all
  have one: "set (map (\<lambda>c. set (c_events c)) (detectConflicts now events))
           = {C \<in> components events. 2 \<le> card C}"
    using sets components_of_size_two by simp
  have three: "\<forall>c \<in> set (detectConflicts now events).
               distinct (c_events c) \<and> 2 \<le> card (set (c_events c))
               \<and> c_severity c = (if card (set (c_events c)) = 2 then Low
                                 else if card (set (c_events c)) = 3 then Medium else High)
               \<and> (c_type c = Overbooking \<longleftrightarrow> card (set (c_events c)) > 2)
               \<and> (c_type c = Overlap \<longleftrightarrow> card (set (c_events c)) = 2)"
  proof
    fix c assume c: "c \<in> set (detectConflicts now events)"
    then have "set (c_events c) \<in> {C \<in> components events. 2 \<le> card C}"
      using one by auto
    then have big: "2 \<le> card (set (c_events c))" by simp
    have g: "group_conflict c" using shape c by blast
    then have len: "length (c_events c) = card (set (c_events c))"
      by (simp add: group_conflict_def distinct_card)
    show "distinct (c_events c) \<and> 2 \<le> card (set (c_events c))
               \<and> c_severity c = (if card (set (c_events c)) = 2 then Low
                                 else if card (set (c_events c)) = 3 then Medium else High)
               \<and> (c_type c = Overbooking \<longleftrightarrow> card (set (c_events c)) > 2)
               \<and> (c_type c = Overlap \<longleftrightarrow> card (set (c_events c)) = 2)"
      using g big unfolding group_conflict_def len by auto
  qed
  have four: "\<forall>a \<in> set events. \<forall>b \<in> set events. \<forall>c \<in> set events.
               \<not> isAllDay a \<and> \<not> isAllDay b \<and> \<not> isAllDay c
               \<and> ev_id a \<noteq> ev_id b \<and> ev_id b \<noteq> ev_id c
               \<and> strictly_overlap a b \<and> strictly_overlap b c
               \<longrightarrow> (\<exists>g \<in> set (detectConflicts now events).
                      {ev_id a, ev_id b, ev_id c} \<subseteq> set (c_events g))"
  proof (intro ballI impI)
    fix a b c
    assume mem: "a \<in> set events" "b \<in> set events" "c \<in> set events"
      and h: "\<not> isAllDay a \<and> \<not> isAllDay b \<and> \<not> isAllDay c
               \<and> ev_id a \<noteq> ev_id b \<and> ev_id b \<noteq> ev_id c
               \<and> strictly_overlap a b \<and> strictly_overlap b c"
    have ab: "(ev_id a, ev_id b) \<in> overlap_graph events"
      and bc: "(ev_id b, ev_id c) \<in> overlap_graph events"
      using mem h by (auto simp: overlap_graph_def)
    then have "ev_id a \<in> Domain (overlap_graph events)" by blast
    then have "(overlap_graph events)\<^sup>* `` {ev_id a}
                 \<in> set (map (\<lambda>c. set (c_events c)) (detectConflicts now events))"
      using sets by blast
    then obtain g where g: "g \<in> set (detectConflicts now events)"
      and gs: "set (c_events g) = (overlap_graph events)\<^sup>* `` {ev_id a}"
      by auto
    have "{ev_id a, ev_id b, ev_id c} \<subseteq> (overlap_graph events)\<^sup>* `` {ev_id a}"
      using ab bc by (auto intro: rtrancl_trans)
    then show "\<exists>g \<in> set (detectConflicts now events).
                      {ev_id a, ev_id b, ev_id c} \<subseteq> set (c_events g)"
      using g gs by blast
  qed
  from one dist three four show ?thesis by blast
qed

text \<open>
  An example with a chain a, b, c (a and c do not overlap), a pair d, e, an event f that
  only touches its neighbours, and an all-day event g.
\<close>

lemma detect_two_groups:
  "detectConflicts (\<lambda>k. 1767225600000)
     [timed_event ''a'' 0 10, timed_event ''b'' 5 15, timed_event ''c'' 12 20,
      timed_event ''d'' 30 40, timed_event ''e'' 35 36, timed_event ''f'' 20 30,
      allDay_event ''g'' 0 100]
   = [\<lparr>c_id = ''conflict-1767225600000-0'', c_events = [''a'', ''b'', ''c''],
       c_type = Overbooking, c_severity = Medium\<rparr>,
      \<lparr>c_id = ''conflict-1767225600000-1'', c_events = [''d'', ''e''],
       c_type = Overlap, c_severity = Low\<rparr>]"
  by (simp add: detectConflicts_def timed_event_def allDay_event_def isAllDay_def Let_def
        areIntervalsOverlapping_def track_conflict_def map_has_def map_set_def
        map_get_add_def set_add_def map_get_def string_of_nat.simps digit_char_def)

theorem detectConflicts_components_witness:
  "detectConflicts (\<lambda>k. 1767225600000)
     [timed_event ''a'' 0 10, timed_event ''b'' 5 15, timed_event ''c'' 12 20,
      timed_event ''d'' 30 40, timed_event ''e'' 35 36, timed_event ''f'' 20 30,
      allDay_event ''g'' 0 100]
   = [\<lparr>c_id = ''conflict-1767225600000-0'', c_events = [''a'', ''b'', ''c''],
       c_type = Overbooking, c_severity = Medium\<rparr>,
      \<lparr>c_id = ''conflict-1767225600000-1'', c_events = [''d'', ''e''],
       c_type = Overlap, c_severity = Low\<rparr>]
   \<and> {C \<in> components
          [timed_event ''a'' 0 10, timed_event ''b'' 5 15, timed_event ''c'' 12 20,
           timed_event ''d'' 30 40, timed_event ''e'' 35 36, timed_event ''f'' 20 30,
           allDay_event ''g'' 0 100]. 2 \<le> card C}
       = {{''a'', ''b'', ''c''}, {''d'', ''e''}}"
proof -
  let ?evs = "[timed_event ''a'' 0 10, timed_event ''b'' 5 15, timed_event ''c'' 12 20,
           timed_event ''d'' 30 40, timed_event ''e'' 35 36, timed_event ''f'' 20 30,
           allDay_event ''g'' 0 100]"
  have d: "distinct (map ev_id (filter (\<lambda>e. \<not> isAllDay e) ?evs))"
    by (simp add: timed_event_def allDay_event_def isAllDay_def)
  have wf: "\<forall>e \<in> set ?evs. \<not> isAllDay e \<longrightarrow> ev_start e \<le> ev_end e"
    by (simp add: timed_event_def allDay_event_def isAllDay_def)
  from detectConflicts_components [OF d wf, of "\<lambda>k. 1767225600000", THEN conjunct1]
  have "{C \<in> components ?evs. 2 \<le> card C} = {{''a'', ''b'', ''c''}, {''d'', ''e''}}"
    unfolding detect_two_groups by simp
  then show ?thesis
    using detect_two_groups by simp
qed

lemma detect_pair:
  assumes "ev_id a \<noteq> ev_id b"
  shows "group_loop now (outer_loop [a, b] []) (outer_loop [a, b] []) {} []
         = (if overlapping a b
            then [\<lparr>c_id = ''conflict-'' @ string_of_nat (now 0) @ ''-'' @ string_of_nat 0,
                   c_events = [ev_id a, ev_id b], c_type = Overlap, c_severity = Low\<rparr>]
            else [])"
proof (cases "overlapping a b")
  case True
  have m: "outer_loop [a, b] [] = [(ev_id a, [ev_id b]), (ev_id b, [ev_id a])]"
    using True assms
    by (simp add: overlapping_def track_conflict_def Let_def map_has_def map_set_def
          map_get_add_def set_add_def)
  have t: "traverse [(ev_id a, [ev_id b]), (ev_id b, [ev_id a])] [ev_id a] [ev_id a]
             = [ev_id a, ev_id b]"
    using assms by (simp add: map_get_def)
  show ?thesis
    unfolding m using True assms t by (simp add: Let_def)
next
  case False
  then show ?thesis by (simp add: overlapping_def)
qed

lemma detectConflicts_pair:
  assumes "ev_id A \<noteq> ev_id B"
  shows "detectConflicts now [A, B]
         = (if \<not> isAllDay A \<and> \<not> isAllDay B \<and> overlapping A B
            then [\<lparr>c_id = ''conflict-'' @ string_of_nat (now 0) @ ''-'' @ string_of_nat 0,
                   c_events = (if ev_start A \<le> ev_start B then [ev_id A, ev_id B]
                               else [ev_id B, ev_id A]),
                   c_type = Overlap, c_severity = Low\<rparr>]
            else [])"
proof -
  consider "isAllDay A" "isAllDay B" | "isAllDay A" "\<not> isAllDay B"
    | "\<not> isAllDay A" "isAllDay B" | "\<not> isAllDay A" "\<not> isAllDay B" "ev_start A \<le> ev_start B"
    | "\<not> isAllDay A" "\<not> isAllDay B" "\<not> ev_start A \<le> ev_start B"
    by blast
  then show ?thesis
  proof cases
    case 1
    then show ?thesis by (simp add: detectConflicts_def)
  next
    case 2
    then show ?thesis by (simp add: detectConflicts_def)
  next
    case 3
    then show ?thesis by (simp add: detectConflicts_def)
  next
    case 4
    then have "detectConflicts now [A, B]
                 = group_loop now (outer_loop [A, B] []) (outer_loop [A, B] []) {} []"
      by (simp add: detectConflicts_def Let_def)
    then show ?thesis
      using 4 detect_pair [OF assms, of now] by simp
  next
    case 5
    then have "detectConflicts now [A, B]
                 = group_loop now (outer_loop [B, A] []) (outer_loop [B, A] []) {} []"
      by (simp add: detectConflicts_def Let_def)
    then show ?thesis
      using 5 detect_pair [OF assms [symmetric], of now] overlapping_sym [of A B] by simp
  qed
qed

lemma component_ids_timed:
  assumes "x \<in> (overlap_graph evs)\<^sup>* `` {k}" and "k \<in> Domain (overlap_graph evs)"
  shows "\<exists>a \<in> set evs. \<not> isAllDay a \<and> x = ev_id a"
proof -
  have "x = k \<or> x \<in> Range (overlap_graph evs)"
    using assms(1) by (auto elim: rtranclE)
  then show ?thesis
  proof
    assume "x = k"
    with assms(2) obtain y where "(x, y) \<in> overlap_graph evs" by blast
    then show ?thesis by (rule overlap_graphE) blast
  next
    assume "x \<in> Range (overlap_graph evs)"
    then obtain y where "(y, x) \<in> overlap_graph evs" by blast
    then show ?thesis by (rule overlap_graphE) blast
  qed
qed

lemma detectConflicts_no_allDay:
  assumes d: "distinct (map ev_id evs)"
    and wf: "\<forall>e \<in> set evs. \<not> isAllDay e \<longrightarrow> ev_start e \<le> ev_end e"
    and c: "c \<in> set (detectConflicts now evs)" and e: "e \<in> set evs" and ad: "isAllDay e"
  shows "ev_id e \<notin> set (c_events c)"
proof
  assume mem: "ev_id e \<in> set (c_events c)"
  have d': "distinct (map ev_id (filter (\<lambda>e. \<not> isAllDay e) evs))"
    using d by (rule distinct_map_filter)
  have "set (c_events c) \<in> set (map (\<lambda>c. set (c_events c)) (detectConflicts now evs))"
    using c by simp
  then have "set (c_events c)
          \<in> {(overlap_graph evs)\<^sup>* `` {k} | k. k \<in> Domain (overlap_graph evs)}"
    using detectConflicts_groups [OF d' wf, of now] by (simp only:)
  then obtain k where "set (c_events c) = (overlap_graph evs)\<^sup>* `` {k}"
    and "k \<in> Domain (overlap_graph evs)"
    by blast
  with mem component_ids_timed obtain a where a: "a \<in> set evs" "\<not> isAllDay a"
    "ev_id e = ev_id a"
    by metis
  have "inj_on ev_id (set evs)"
    using d by (simp add: distinct_map)
  then have "e = a"
    using a e by (auto dest: inj_onD)
  then show False using a ad by simp
qed

text \<open>
  Claim C1. For two events with different ids and well-formed intervals,
  \<open>detectConflicts\<close> reports a conflict that contains both exactly when neither is
  all-day and they strictly overlap; otherwise it reports nothing, in particular when the
  first ends at the instant the second starts. For any event list with unique ids and
  well-formed intervals, no conflict contains the id of an all-day event.
\<close>

theorem detectConflicts_two_events:
  assumes ids: "ev_id A \<noteq> ev_id B"
    and wfA: "ev_start A \<le> ev_end A" and wfB: "ev_start B \<le> ev_end B"
  shows "((\<exists>c \<in> set (detectConflicts now [A, B]).
             ev_id A \<in> set (c_events c) \<and> ev_id B \<in> set (c_events c))
          \<longleftrightarrow> \<not> isAllDay A \<and> \<not> isAllDay B
               \<and> ev_start A < ev_end B \<and> ev_start B < ev_end A)
         \<and> (\<not> (\<not> isAllDay A \<and> \<not> isAllDay B
                \<and> ev_start A < ev_end B \<and> ev_start B < ev_end A)
             \<longrightarrow> detectConflicts now [A, B] = [])
         \<and> (ev_end A = ev_start B \<longrightarrow> detectConflicts now [A, B] = [])
         \<and> (distinct (map ev_id events)
               \<and> (\<forall>e \<in> set events. \<not> isAllDay e \<longrightarrow> ev_start e \<le> ev_end e)
             \<longrightarrow> (\<forall>c \<in> set (detectConflicts now events). \<forall>e \<in> set events.
                     isAllDay e \<longrightarrow> ev_id e \<notin> set (c_events c)))"
proof -
  have ov: "overlapping A B \<longleftrightarrow> ev_start A < ev_end B \<and> ev_start B < ev_end A"
    using overlapping_strict [OF wfA wfB] by (simp add: strictly_overlap_def)
  note pair = detectConflicts_pair [OF ids, of now]
  have one: "(\<exists>c \<in> set (detectConflicts now [A, B]).
             ev_id A \<in> set (c_events c) \<and> ev_id B \<in> set (c_events c))
          \<longleftrightarrow> \<not> isAllDay A \<and> \<not> isAllDay B
               \<and> ev_start A < ev_end B \<and> ev_start B < ev_end A"
    unfolding pair ov by simp
  have two: "\<not> (\<not> isAllDay A \<and> \<not> isAllDay B
                \<and> ev_start A < ev_end B \<and> ev_start B < ev_end A)
             \<longrightarrow> detectConflicts now [A, B] = []"
    unfolding pair ov by simp
  have three: "ev_end A = ev_start B \<longrightarrow> detectConflicts now [A, B] = []"
    unfolding pair ov by simp
  have four: "distinct (map ev_id events)
               \<and> (\<forall>e \<in> set events. \<not> isAllDay e \<longrightarrow> ev_start e \<le> ev_end e)
             \<longrightarrow> (\<forall>c \<in> set (detectConflicts now events). \<forall>e \<in> set events.
                     isAllDay e \<longrightarrow> ev_id e \<notin> set (c_events c))"
    using detectConflicts_no_allDay by blast
  from one two three four show ?thesis by blast
qed

lemma detect_with_allDay:
  "detectConflicts (\<lambda>k. 1767225600000)
     [allDay_event ''d'' 0 86400000, timed_event ''a'' 32400000 37800000,
      timed_event ''b'' 36000000 39600000]
   = [\<lparr>c_id = ''conflict-1767225600000-0'', c_events = [''a'', ''b''],
       c_type = Overlap, c_severity = Low\<rparr>]"
  by (simp add: detectConflicts_def timed_event_def allDay_event_def isAllDay_def Let_def
        areIntervalsOverlapping_def track_conflict_def map_has_def map_set_def
        map_get_add_def set_add_def map_get_def string_of_nat.simps digit_char_def)

theorem detectConflicts_two_events_witness:
  "(\<exists>c \<in> set (detectConflicts (\<lambda>k. 1767225600000)
                  [timed_event ''a'' 32400000 37800000, timed_event ''b'' 36000000 39600000]).
       ''a'' \<in> set (c_events c) \<and> ''b'' \<in> set (c_events c))
   \<and> detectConflicts (\<lambda>k. 1767225600000)
        [allDay_event ''d'' 0 86400000, timed_event ''b'' 36000000 39600000] = []
   \<and> detectConflicts (\<lambda>k. 1767225600000)
        [timed_event ''a'' 32400000 36000000, timed_event ''b'' 36000000 39600000] = []
   \<and> ''d'' \<notin> set (c_events \<lparr>c_id = ''conflict-1767225600000-0'', c_events = [''a'', ''b''],
                               c_type = Overlap, c_severity = Low\<rparr>)"
proof -
  let ?now = "\<lambda>k::nat. 1767225600000 :: nat"
  let ?a = "timed_event ''a'' 32400000 37800000"
  let ?a' = "timed_event ''a'' 32400000 36000000"
  let ?b = "timed_event ''b'' 36000000 39600000"
  let ?d = "allDay_event ''d'' 0 86400000"
  let ?c = "\<lparr>c_id = ''conflict-1767225600000-0'', c_events = [''a'', ''b''],
             c_type = Overlap, c_severity = Low\<rparr>"
  have first: "\<exists>c \<in> set (detectConflicts ?now [?a, ?b]).
       ''a'' \<in> set (c_events c) \<and> ''b'' \<in> set (c_events c)"
    using detectConflicts_two_events [where A = ?a and B = ?b and now = ?now, THEN conjunct1]
    by (simp add: timed_event_def isAllDay_def)
  have second: "detectConflicts ?now [?d, ?b] = []"
    using detectConflicts_two_events [where A = ?d and B = ?b and now = ?now,
        THEN conjunct2, THEN conjunct1]
    by (simp add: timed_event_def allDay_event_def isAllDay_def)
  have third: "detectConflicts ?now [?a', ?b] = []"
    using detectConflicts_two_events [where A = ?a' and B = ?b and now = ?now,
        THEN conjunct2, THEN conjunct2, THEN conjunct1]
    by (simp add: timed_event_def)
  have hyp: "distinct (map ev_id [?d, ?a, ?b])
               \<and> (\<forall>e \<in> set [?d, ?a, ?b]. \<not> isAllDay e \<longrightarrow> ev_start e \<le> ev_end e)"
    by (simp add: timed_event_def allDay_event_def)
  have mem: "?c \<in> set (detectConflicts ?now [?d, ?a, ?b])"
    unfolding detect_with_allDay by simp
  have p: "ev_id ?a \<noteq> ev_id ?b" "ev_start ?a \<le> ev_end ?a" "ev_start ?b \<le> ev_end ?b"
    by (simp_all add: timed_event_def)
  have "\<forall>e \<in> set [?d, ?a, ?b]. isAllDay e \<longrightarrow> ev_id e \<notin> set (c_events ?c)"
    using detectConflicts_two_events [where A = ?a and B = ?b and now = ?now
        and events = "[?d, ?a, ?b]", OF p, THEN conjunct2, THEN conjunct2, THEN conjunct2,
        THEN mp, OF hyp, THEN bspec, OF mem] .
  then have "isAllDay ?d \<longrightarrow> ev_id ?d \<notin> set (c_events ?c)"
    by simp
  then have fourth: "''d'' \<notin> set (c_events ?c)"
    by (simp add: allDay_event_def isAllDay_def)
  from first second third fourth show ?thesis by blast
qed

section \<open>The free-slot finder\<close>

lemma startOfDay_aligned: "startOfDay d mod millisecondsInDay = 0"
  by (simp add: startOfDay_def millisecondsInDay_def)

lemma window_of_day:
  assumes "day mod millisecondsInDay = 0"
  shows "setMinutes (setHours day h) m = window_at day (h, m)"
proof -
  have "(3600000 :: int) dvd 86400000" by simp
  then have "day mod 86400000 mod 3600000 = day mod 3600000"
    by (rule mod_mod_cancel)
  then have h0: "day mod 3600000 = 0"
    using assms by (simp add: millisecondsInDay_def)
  have "getHours day = 0"
    using assms by (simp add: getHours_def)
  then have sh: "setHours day h = day + h * 3600000"
    by (simp add: setHours_def millisecondsInHour_def)
  have "(day + h * 3600000) mod 3600000 = 0"
    using h0 by (simp add: mod_add_left_eq [symmetric])
  then have "getMinutes (day + h * 3600000) = 0"
    by (simp add: getMinutes_def millisecondsInHour_def)
  then show ?thesis
    unfolding sh
    by (simp add: setMinutes_def window_at_def millisecondsInHour_def millisecondsInMinute_def)
qed

lemma code_filter_relevant:
  assumes "ds \<le> de" and "\<not> isAllDay e \<longrightarrow> ev_start e \<le> ev_end e"
  shows "(if isAllDay e then False
          else (isWithinInterval (ev_start e) \<lparr>iv_start = ds, iv_end = de\<rparr>
                \<or> isWithinInterval (ev_end e) \<lparr>iv_start = ds, iv_end = de\<rparr>
                \<or> (isBefore (ev_start e) ds \<and> isAfter (ev_end e) de)))
         \<longleftrightarrow> relevant ds de e"
  using assms
  by (auto simp: isWithinInterval_def isBefore_def isAfter_def relevant_def Let_def)

lemma events_loop_scan:
  assumes "ds \<le> de" and "\<forall>e \<in> set es. relevant ds de e \<and> ev_start e \<le> ev_end e"
  shows "(case events_loop ds de minD es (cur, acc) of
            (c', acc') \<Rightarrow> acc' @ gap_slot minD c' de)
         = acc @ cursor_scan ds de minD cur es"
  using assms(2)
proof (induction es arbitrary: cur acc)
  case Nil
  show ?case by simp
next
  case (Cons e es)
  have r: "ev_start e \<le> de" "ds \<le> ev_end e"
    using Cons.prems by (simp_all add: relevant_def)
  have cs: "(if isBefore (ev_start e) ds then ds else ev_start e)
              = clamp_to_window ds de (ev_start e)"
    using r assms(1) by (simp add: isBefore_def clamp_to_window_def)
  have ce: "(if isAfter (ev_end e) de then de else ev_end e)
              = clamp_to_window ds de (ev_end e)"
    using r assms(1) by (simp add: isAfter_def clamp_to_window_def)
  have step: "events_loop ds de minD (e # es) (cur, acc)
      = events_loop ds de minD es
          (max cur (clamp_to_window ds de (ev_end e)),
           acc @ gap_slot minD cur (clamp_to_window ds de (ev_start e)))"
    unfolding events_loop.simps Let_def cs ce
    by (simp add: gap_slot_def isBefore_def isAfter_def max_def)
  have rest: "\<forall>e \<in> set es. relevant ds de e \<and> ev_start e \<le> ev_end e"
    using Cons.prems by simp
  show ?case
    unfolding step using Cons.IH [OF rest] by simp
qed

lemma day_body_eq:
  assumes al: "day mod millisecondsInDay = 0"
    and ord: "window_at day ws \<le> window_at day we"
    and wf: "\<forall>e \<in> set events. \<not> isAllDay e \<longrightarrow> ev_start e \<le> ev_end e"
  shows "day_body events ws we minD day acc
         = acc @ day_slots events (window_at day ws) (window_at day we) minD"
proof -
  let ?ds = "window_at day ws" and ?de = "window_at day we"
  have ds: "setMinutes (setHours day (fst ws)) (snd ws) = ?ds"
    and de: "setMinutes (setHours day (fst we)) (snd we) = ?de"
    using window_of_day [OF al] by simp_all
  have flt: "filter (\<lambda>e. if isAllDay e then False
          else (isWithinInterval (ev_start e) \<lparr>iv_start = ?ds, iv_end = ?de\<rparr>
                \<or> isWithinInterval (ev_end e) \<lparr>iv_start = ?ds, iv_end = ?de\<rparr>
                \<or> (isBefore (ev_start e) ?ds \<and> isAfter (ev_end e) ?de))) events
        = filter (relevant ?ds ?de) events"
    using wf code_filter_relevant [OF ord] by (intro filter_cong) auto
  let ?es = "sort_key ev_start (filter (relevant ?ds ?de) events)"
  have all: "\<forall>e \<in> set ?es. relevant ?ds ?de e \<and> ev_start e \<le> ev_end e"
    using wf by (auto simp: relevant_def)
  have body: "day_body events ws we minD day acc
      = (case events_loop ?ds ?de minD ?es (?ds, acc) of
            (c', acc') \<Rightarrow> acc' @ gap_slot minD c' ?de)"
    unfolding day_body_def ds de Let_def flt
    by (simp add: gap_slot_def isBefore_def split: prod.splits)
  show ?thesis
    unfolding body day_slots_def using events_loop_scan [OF ord all] by simp
qed

lemma days_between_empty: "lastDay < firstDay \<Longrightarrow> days_between firstDay lastDay = []"
proof -
  assume "lastDay < firstDay"
  then have "(lastDay - firstDay) div millisecondsInDay < 0"
    by (simp add: millisecondsInDay_def div_neg_pos_less0)
  then show ?thesis
    by (simp add: days_between_def)
qed

lemma days_between_step:
  assumes "firstDay \<le> lastDay"
  shows "days_between firstDay lastDay = firstDay # days_between (addDays firstDay 1) lastDay"
proof -
  let ?D = "millisecondsInDay"
  have q: "0 \<le> (lastDay - firstDay) div ?D"
    using assms by (simp add: millisecondsInDay_def pos_imp_zdiv_nonneg_iff)
  have "(lastDay - (firstDay + ?D)) div ?D = (lastDay - firstDay) div ?D - 1"
  proof -
    have "lastDay - (firstDay + ?D) = (lastDay - firstDay) + (- 1) * ?D" by simp
    then show ?thesis
      by (simp only: div_mult_self1 [of ?D "lastDay - firstDay" "- 1"] millisecondsInDay_def)
  qed
  then have n: "nat ((lastDay - firstDay) div ?D + 1)
                  = Suc (nat ((lastDay - addDays firstDay 1) div ?D + 1))"
    using q by (simp add: addDays_def)
  show ?thesis
    unfolding days_between_def n
    by (simp add: upt_conv_Cons map_Suc_upt [symmetric] addDays_def algebra_simps
          del: upt_Suc)
qed

lemma days_loop_eq:
  assumes "cur mod millisecondsInDay = 0"
    and "window_at 0 ws \<le> window_at 0 we"
    and "\<forall>e \<in> set events. \<not> isAllDay e \<longrightarrow> ev_start e \<le> ev_end e"
  shows "days_loop events ws we minD cur lastDay acc
         = acc @ concat (map (\<lambda>day. day_slots events (window_at day ws) (window_at day we) minD)
                          (days_between cur lastDay))"
  using assms
proof (induction events ws we minD cur lastDay acc rule: days_loop.induct)
  case (1 events ws we minD cur lastDay acc)
  note al = "1.prems"(1) and ord = "1.prems"(2) and wf = "1.prems"(3)
  show ?case
  proof (cases "cur \<le> lastDay")
    case False
    then show ?thesis
      by (subst days_loop.simps) (simp add: days_between_empty)
  next
    case True
    have al': "addDays cur 1 mod millisecondsInDay = 0"
      using al by (simp add: addDays_def)
    have ord': "window_at cur ws \<le> window_at cur we"
      using ord unfolding window_at_def by simp
    have "days_loop events ws we minD cur lastDay acc
            = days_loop events ws we minD (addDays cur 1) lastDay
                (day_body events ws we minD cur acc)"
      using True by (subst days_loop.simps) simp
    also have "\<dots> = day_body events ws we minD cur acc
           @ concat (map (\<lambda>day. day_slots events (window_at day ws) (window_at day we) minD)
                          (days_between (addDays cur 1) lastDay))"
      using "1.IH" [OF True al' ord wf] .
    finally show ?thesis
      using day_body_eq [OF al ord' wf] days_between_step [OF True] by simp
  qed
qed

lemma findFreeSlots_eq:
  assumes ps: "split_hour_min (wh_start wh) = Some ws"
    and pe: "split_hour_min (wh_end wh) = Some we"
    and ord: "window_at 0 ws \<le> window_at 0 we"
    and wf: "\<forall>e \<in> set events. \<not> isAllDay e \<longrightarrow> ev_start e \<le> ev_end e"
  shows "findFreeSlots events startDate endDate wh minD
         = Some (concat (map (\<lambda>day. day_slots events (window_at day ws) (window_at day we) minD)
                           (days_between (startOfDay startDate) (startOfDay endDate))))"
  using days_loop_eq [OF startOfDay_aligned [of startDate] ord wf,
      where minD = minD and lastDay = "startOfDay endDate" and acc = "[]"]
  by (simp add: findFreeSlots_def ps pe Let_def)

lemma days_between_single: "days_between d d = [d]"
  using days_between_step [of d d] days_between_empty [of d "addDays d 1"]
  by (simp add: addDays_def millisecondsInDay_def)

lemma findFreeSlots_single_day:
  assumes "split_hour_min (wh_start wh) = Some ws"
    and "split_hour_min (wh_end wh) = Some we"
    and "window_at 0 ws \<le> window_at 0 we"
    and "\<forall>e \<in> set events. \<not> isAllDay e \<longrightarrow> ev_start e \<le> ev_end e"
    and "startOfDay startDate = startOfDay endDate"
  shows "findFreeSlots events startDate endDate wh minD
         = Some (day_slots events (window_at (startOfDay startDate) ws)
                   (window_at (startOfDay startDate) we) minD)"
  using findFreeSlots_eq [OF assms(1-4), of startDate endDate minD] assms(5)
  by (simp add: days_between_single)

lemma gap_slot_none: "b \<le> a \<Longrightarrow> gap_slot m a b = []"
  by (simp add: gap_slot_def)

lemma scan_prefix:
  assumes "ws \<le> c" and "\<forall>x \<in> set pre. ev_start x \<le> ws"
  shows "\<exists>c'. c \<le> c' \<and> cursor_scan ws we m c (pre @ rest) = cursor_scan ws we m c' rest"
  using assms
proof (induction pre arbitrary: c)
  case Nil
  then show ?case by auto
next
  case (Cons x pre)
  have "clamp_to_window ws we (ev_start x) = ws"
    using Cons.prems(2) by (simp add: clamp_to_window_def max_def min_def)
  then have step: "cursor_scan ws we m c ((x # pre) @ rest)
      = cursor_scan ws we m (max c (clamp_to_window ws we (ev_end x))) (pre @ rest)"
    using Cons.prems(1) by (simp add: gap_slot_none)
  have "ws \<le> max c (clamp_to_window ws we (ev_end x))"
    using Cons.prems(1) by simp
  from Cons.IH [OF this] Cons.prems(2)
  obtain c' where "max c (clamp_to_window ws we (ev_end x)) \<le> c'"
    and "cursor_scan ws we m (max c (clamp_to_window ws we (ev_end x))) (pre @ rest)
           = cursor_scan ws we m c' rest"
    by auto
  then show ?case
    unfolding step by (intro exI [of _ c']) simp
qed

lemma scan_after_end:
  assumes "ws \<le> we" and "we \<le> c"
  shows "cursor_scan ws we m c es = []"
  using assms(2)
proof (induction es arbitrary: c)
  case Nil
  then show ?case by (simp add: gap_slot_none)
next
  case (Cons x es)
  have "clamp_to_window ws we (ev_start x) \<le> c"
    using assms(1) Cons.prems by (simp add: clamp_to_window_def max_def min_def)
  moreover have "we \<le> max c (clamp_to_window ws we (ev_end x))"
    using Cons.prems by simp
  ultimately show ?case
    using Cons.IH by (simp add: gap_slot_none)
qed

lemma day_slots_covered:
  assumes ord: "ws \<le> we" and e: "e \<in> set events" "\<not> isAllDay e"
    and cover: "ev_start e \<le> ws" "we \<le> ev_end e"
  shows "day_slots events ws we m = []"
proof -
  let ?L = "sort_key ev_start (filter (relevant ws we) events)"
  have "e \<in> set ?L"
    using e cover ord by (simp add: relevant_def)
  from split_list [OF this] obtain pre post where L: "?L = pre @ e # post"
    by blast
  have "sorted (map ev_start ?L)"
    by (rule sorted_sort_key)
  then have pre: "\<forall>x \<in> set pre. ev_start x \<le> ws"
    unfolding L using cover(1) by (auto simp: sorted_append)
  from scan_prefix [OF order_refl pre, of we m "e # post"]
  obtain c' where c': "ws \<le> c'"
    and eq: "cursor_scan ws we m ws (pre @ e # post) = cursor_scan ws we m c' (e # post)"
    by auto
  have cs: "clamp_to_window ws we (ev_start e) = ws"
    using cover(1) by (simp add: clamp_to_window_def max_def min_def)
  have ce: "clamp_to_window ws we (ev_end e) = we"
    using cover(2) ord by (simp add: clamp_to_window_def max_def min_def)
  have "cursor_scan ws we m c' (e # post) = cursor_scan ws we m (max c' we) post"
    using c' by (simp add: cs ce gap_slot_none)
  also have "\<dots> = []"
    by (rule scan_after_end [OF ord]) simp
  finally show ?thesis
    unfolding day_slots_def L eq .
qed

lemma split_hour_min_9_17:
  "split_hour_min ''09:00'' = Some (9, 0)" "split_hour_min ''17:00'' = Some (17, 0)"
  by (simp_all add: split_hour_min_def Number_def digit_value_def)

text \<open>
  Claim C3. With working hours written as digits around a colon, a window that does not
  end before it starts, and well-formed event intervals, \<open>findFreeSlots\<close> returns, for
  the days of the inclusive range in order, the gaps of at least the minimum duration that
  the cursor scan emits over the day's relevant events, sorted by start and clamped to the
  window. On a single day with no events and working hours 09:00 to 17:00 it returns the
  one slot of 480 minutes covering the window when the minimum is at most 480; on a single
  day on which an event that is not all-day covers the window it returns no slot.
\<close>

theorem findFreeSlots_cursor_scan:
  "(split_hour_min (wh_start wh) = Some ws \<and> split_hour_min (wh_end wh) = Some we
      \<and> window_at 0 ws \<le> window_at 0 we
      \<and> (\<forall>e \<in> set events. \<not> isAllDay e \<longrightarrow> ev_start e \<le> ev_end e)
    \<longrightarrow> findFreeSlots events startDate endDate wh minD
         = Some (concat (map (\<lambda>day. day_slots events (window_at day ws) (window_at day we) minD)
                           (days_between (startOfDay startDate) (startOfDay endDate)))))
   \<and> (wh_start wh = ''09:00'' \<and> wh_end wh = ''17:00''
      \<and> startOfDay startDate = startOfDay endDate \<and> minD \<le> 480
    \<longrightarrow> findFreeSlots [] startDate endDate wh minD
         = Some [\<lparr>fs_start = startOfDay startDate + 32400000,
                   fs_end = startOfDay startDate + 61200000, fs_duration = 480\<rparr>])
   \<and> (split_hour_min (wh_start wh) = Some ws \<and> split_hour_min (wh_end wh) = Some we
      \<and> window_at 0 ws \<le> window_at 0 we
      \<and> (\<forall>e \<in> set events. \<not> isAllDay e \<longrightarrow> ev_start e \<le> ev_end e)
      \<and> startOfDay startDate = startOfDay endDate
      \<and> (\<exists>e \<in> set events. \<not> isAllDay e
             \<and> ev_start e \<le> window_at (startOfDay startDate) ws
             \<and> window_at (startOfDay startDate) we \<le> ev_end e)
    \<longrightarrow> findFreeSlots events startDate endDate wh minD = Some [])"
proof (intro conjI impI)
  assume "split_hour_min (wh_start wh) = Some ws \<and> split_hour_min (wh_end wh) = Some we
      \<and> window_at 0 ws \<le> window_at 0 we
      \<and> (\<forall>e \<in> set events. \<not> isAllDay e \<longrightarrow> ev_start e \<le> ev_end e)"
  then show "findFreeSlots events startDate endDate wh minD
         = Some (concat (map (\<lambda>day. day_slots events (window_at day ws) (window_at day we) minD)
                           (days_between (startOfDay startDate) (startOfDay endDate))))"
    using findFreeSlots_eq by blast
next
  assume a: "wh_start wh = ''09:00'' \<and> wh_end wh = ''17:00''
      \<and> startOfDay startDate = startOfDay endDate \<and> minD \<le> 480"
  have ps: "split_hour_min (wh_start wh) = Some (9, 0)"
    and pe: "split_hour_min (wh_end wh) = Some (17, 0)"
    using a split_hour_min_9_17 by simp_all
  have ord: "window_at 0 (9, 0) \<le> window_at 0 (17, 0)"
    by (simp add: window_at_def millisecondsInHour_def)
  have wf: "\<forall>e \<in> set []. \<not> isAllDay e \<longrightarrow> ev_start e \<le> ev_end e"
    by simp
  have "findFreeSlots [] startDate endDate wh minD
      = Some (day_slots [] (window_at (startOfDay startDate) (9, 0))
                (window_at (startOfDay startDate) (17, 0)) minD)"
    using findFreeSlots_single_day [OF ps pe ord wf] a by blast
  then show "findFreeSlots [] startDate endDate wh minD
         = Some [\<lparr>fs_start = startOfDay startDate + 32400000,
                   fs_end = startOfDay startDate + 61200000, fs_duration = 480\<rparr>]"
    using a
    by (simp add: day_slots_def gap_slot_def window_at_def millisecondsInHour_def
          millisecondsInMinute_def differenceInMinutes_def)
next
  assume a: "split_hour_min (wh_start wh) = Some ws \<and> split_hour_min (wh_end wh) = Some we
      \<and> window_at 0 ws \<le> window_at 0 we
      \<and> (\<forall>e \<in> set events. \<not> isAllDay e \<longrightarrow> ev_start e \<le> ev_end e)
      \<and> startOfDay startDate = startOfDay endDate
      \<and> (\<exists>e \<in> set events. \<not> isAllDay e
             \<and> ev_start e \<le> window_at (startOfDay startDate) ws
             \<and> window_at (startOfDay startDate) we \<le> ev_end e)"
  then obtain e where e: "e \<in> set events" "\<not> isAllDay e"
    "ev_start e \<le> window_at (startOfDay startDate) ws"
    "window_at (startOfDay startDate) we \<le> ev_end e"
    by blast
  have ord: "window_at (startOfDay startDate) ws \<le> window_at (startOfDay startDate) we"
    using a unfolding window_at_def by simp
  have "findFreeSlots events startDate endDate wh minD
      = Some (day_slots events (window_at (startOfDay startDate) ws)
                (window_at (startOfDay startDate) we) minD)"
    using findFreeSlots_single_day a by blast
  then show "findFreeSlots events startDate endDate wh minD = Some []"
    using day_slots_covered [OF ord e] by simp
qed

lemma split_hour_min_18: "split_hour_min ''18:00'' = Some (18, 0)"
  by (simp add: split_hour_min_def Number_def digit_value_def)

theorem findFreeSlots_cursor_scan_witness:
  "findFreeSlots [timed_event ''a'' 32400000 36000000, timed_event ''b'' 36000000 39600000]
     36000000 50000000 \<lparr>wh_start = ''09:00'', wh_end = ''18:00''\<rparr> 30
     = Some [\<lparr>fs_start = 39600000, fs_end = 64800000, fs_duration = 420\<rparr>]
   \<and> findFreeSlots [] 36000000 50000000 \<lparr>wh_start = ''09:00'', wh_end = ''17:00''\<rparr> 480
     = Some [\<lparr>fs_start = 32400000, fs_end = 61200000, fs_duration = 480\<rparr>]
   \<and> findFreeSlots [allDay_event ''h'' 0 86400000, timed_event ''x'' 28800000 64800000]
     36000000 50000000 \<lparr>wh_start = ''09:00'', wh_end = ''17:00''\<rparr> 30
     = Some []"
proof -
  let ?evs = "[timed_event ''a'' 32400000 36000000, timed_event ''b'' 36000000 39600000]"
  let ?cov = "[allDay_event ''h'' 0 86400000, timed_event ''x'' 28800000 64800000]"
  let ?w18 = "\<lparr>wh_start = ''09:00'', wh_end = ''18:00''\<rparr>"
  let ?w17 = "\<lparr>wh_start = ''09:00'', wh_end = ''17:00''\<rparr>"
  have sod: "startOfDay 36000000 = 0" "startOfDay 50000000 = 0"
    by (simp_all add: startOfDay_def millisecondsInDay_def)
  have h1: "split_hour_min (wh_start ?w18) = Some (9, 0)
      \<and> split_hour_min (wh_end ?w18) = Some (18, 0)
      \<and> window_at 0 (9, 0) \<le> window_at 0 (18, 0)
      \<and> (\<forall>e \<in> set ?evs. \<not> isAllDay e \<longrightarrow> ev_start e \<le> ev_end e)"
    by (simp add: split_hour_min_9_17 split_hour_min_18 window_at_def millisecondsInHour_def
          timed_event_def)
  have first: "findFreeSlots ?evs 36000000 50000000 ?w18 30
      = Some [\<lparr>fs_start = 39600000, fs_end = 64800000, fs_duration = 420\<rparr>]"
    using findFreeSlots_cursor_scan [where wh = ?w18 and ws = "(9, 0)" and we = "(18, 0)"
        and events = ?evs and startDate = 36000000 and endDate = 50000000 and minD = 30,
        THEN conjunct1, THEN mp, OF h1]
    by (simp add: sod days_between_single day_slots_def relevant_def timed_event_def
          isAllDay_def window_at_def millisecondsInHour_def millisecondsInMinute_def
          gap_slot_def clamp_to_window_def differenceInMinutes_def)
  have h2: "wh_start ?w17 = ''09:00'' \<and> wh_end ?w17 = ''17:00''
      \<and> startOfDay 36000000 = startOfDay 50000000 \<and> (480 :: int) \<le> 480"
    by (simp add: sod)
  have second: "findFreeSlots [] 36000000 50000000 ?w17 480
      = Some [\<lparr>fs_start = 32400000, fs_end = 61200000, fs_duration = 480\<rparr>]"
    using findFreeSlots_cursor_scan [where wh = ?w17 and startDate = 36000000
        and endDate = 50000000 and minD = 480, THEN conjunct2, THEN conjunct1, THEN mp, OF h2]
    by (simp add: sod)
  have h3: "split_hour_min (wh_start ?w17) = Some (9, 0)
      \<and> split_hour_min (wh_end ?w17) = Some (17, 0)
      \<and> window_at 0 (9, 0) \<le> window_at 0 (17, 0)
      \<and> (\<forall>e \<in> set ?cov. \<not> isAllDay e \<longrightarrow> ev_start e \<le> ev_end e)
      \<and> startOfDay 36000000 = startOfDay 50000000
      \<and> (\<exists>e \<in> set ?cov. \<not> isAllDay e
             \<and> ev_start e \<le> window_at (startOfDay 36000000) (9, 0)
             \<and> window_at (startOfDay 36000000) (17, 0) \<le> ev_end e)"
    by (simp add: split_hour_min_9_17 window_at_def millisecondsInHour_def
          timed_event_def allDay_event_def isAllDay_def sod)
  have third: "findFreeSlots ?cov 36000000 50000000 ?w17 30 = Some []"
    using findFreeSlots_cursor_scan [where wh = ?w17 and ws = "(9, 0)" and we = "(17, 0)"
        and events = ?cov and startDate = 36000000 and endDate = 50000000 and minD = 30,
        THEN conjunct2, THEN conjunct2, THEN mp, OF h3] .
  from first second third show ?thesis by simp
qed

lemma day_slots_zero_duration:
  assumes "ws \<le> we" and "\<not> isAllDay z" and "ev_start z = ev_end z"
  shows "day_slots [z] ws we m
         = gap_slot m ws (clamp_to_window ws we (ev_start z))
           @ gap_slot m (clamp_to_window ws we (ev_start z)) we"
proof (cases "relevant ws we z")
  case True
  then have "ws \<le> ev_start z" "ev_start z \<le> we"
    using assms(3) by (simp_all add: relevant_def)
  then show ?thesis
    using True assms(3) by (simp add: day_slots_def clamp_to_window_def max_def min_def)
next
  case False
  then consider "we < ev_start z" | "ev_start z < ws"
    using assms(2,3) by (auto simp: relevant_def)
  then show ?thesis
  proof cases
    case 1
    then show ?thesis
      using False assms(1)
      by (simp add: day_slots_def clamp_to_window_def max_def min_def gap_slot_none)
  next
    case 2
    then show ?thesis
      using False assms(1)
      by (simp add: day_slots_def clamp_to_window_def max_def min_def gap_slot_none)
  qed
qed

text \<open>
  Claim C7. Under \<open>detectConflicts\<close> an event of zero duration conflicts with another
  event exactly when neither is all-day and its instant lies strictly inside the other
  event; it never conflicts with another event of zero duration. In \<open>findFreeSlots\<close>, on
  a day with no other event, a zero-duration event leaves the whole window free but ends a
  slot at its instant: the result is the gap from the window start to the instant and the
  gap from the instant to the window end (the instant clamped to the window), where
  without the event it is the one gap of the window.
\<close>

theorem zero_duration_events:
  assumes zero: "ev_start Z = ev_end Z"
  shows "(ev_id Z \<noteq> ev_id B \<and> ev_start B \<le> ev_end B
          \<longrightarrow> (detectConflicts now [Z, B] \<noteq> []
               \<longleftrightarrow> \<not> isAllDay Z \<and> \<not> isAllDay B
                    \<and> ev_start B < ev_start Z \<and> ev_start Z < ev_end B))
         \<and> (ev_id Z \<noteq> ev_id B \<and> ev_start B = ev_end B
             \<longrightarrow> detectConflicts now [Z, B] = [])
         \<and> (split_hour_min (wh_start wh) = Some ws \<and> split_hour_min (wh_end wh) = Some we
               \<and> window_at 0 ws \<le> window_at 0 we
               \<and> startOfDay startDate = startOfDay endDate \<and> \<not> isAllDay Z
             \<longrightarrow> findFreeSlots [Z] startDate endDate wh minD
                  = Some (gap_slot minD (window_at (startOfDay startDate) ws)
                            (clamp_to_window (window_at (startOfDay startDate) ws)
                               (window_at (startOfDay startDate) we) (ev_start Z))
                          @ gap_slot minD
                              (clamp_to_window (window_at (startOfDay startDate) ws)
                                 (window_at (startOfDay startDate) we) (ev_start Z))
                              (window_at (startOfDay startDate) we))
                \<and> findFreeSlots [] startDate endDate wh minD
                  = Some (gap_slot minD (window_at (startOfDay startDate) ws)
                            (window_at (startOfDay startDate) we)))"
proof -
  have one: "detectConflicts now [Z, B] \<noteq> []
               \<longleftrightarrow> \<not> isAllDay Z \<and> \<not> isAllDay B
                    \<and> ev_start B < ev_start Z \<and> ev_start Z < ev_end B"
    if a: "ev_id Z \<noteq> ev_id B \<and> ev_start B \<le> ev_end B"
  proof -
  have "overlapping Z B \<longleftrightarrow> ev_start Z < ev_end B \<and> ev_start B < ev_end Z"
    using overlapping_strict [of Z B] a zero by (simp add: strictly_overlap_def)
  then show ?thesis
    using detectConflicts_pair [of Z B now] a zero by auto
  qed
  have two: "detectConflicts now [Z, B] = []"
    if a: "ev_id Z \<noteq> ev_id B \<and> ev_start B = ev_end B"
  proof -
  have "overlapping Z B \<longleftrightarrow> ev_start Z < ev_end B \<and> ev_start B < ev_end Z"
    using overlapping_strict [of Z B] a zero by (simp add: strictly_overlap_def)
  then show ?thesis
    using detectConflicts_pair [of Z B now] a zero by auto
  qed
  have three: "findFreeSlots [Z] startDate endDate wh minD
                  = Some (gap_slot minD (window_at (startOfDay startDate) ws)
                            (clamp_to_window (window_at (startOfDay startDate) ws)
                               (window_at (startOfDay startDate) we) (ev_start Z))
                          @ gap_slot minD
                              (clamp_to_window (window_at (startOfDay startDate) ws)
                                 (window_at (startOfDay startDate) we) (ev_start Z))
                              (window_at (startOfDay startDate) we))
                \<and> findFreeSlots [] startDate endDate wh minD
                  = Some (gap_slot minD (window_at (startOfDay startDate) ws)
                            (window_at (startOfDay startDate) we))"
    if a: "split_hour_min (wh_start wh) = Some ws \<and> split_hour_min (wh_end wh) = Some we
               \<and> window_at 0 ws \<le> window_at 0 we
               \<and> startOfDay startDate = startOfDay endDate \<and> \<not> isAllDay Z"
  proof -
  have ord: "window_at (startOfDay startDate) ws \<le> window_at (startOfDay startDate) we"
    using a unfolding window_at_def by simp
  have wf: "\<forall>e \<in> set [Z]. \<not> isAllDay e \<longrightarrow> ev_start e \<le> ev_end e"
    using zero by simp
  have wf0: "\<forall>e \<in> set []. \<not> isAllDay e \<longrightarrow> ev_start e \<le> ev_end e"
    by simp
  have "findFreeSlots [Z] startDate endDate wh minD
      = Some (day_slots [Z] (window_at (startOfDay startDate) ws)
                (window_at (startOfDay startDate) we) minD)"
    using findFreeSlots_single_day [OF _ _ _ wf] a by blast
  moreover have "findFreeSlots [] startDate endDate wh minD
      = Some (day_slots [] (window_at (startOfDay startDate) ws)
                (window_at (startOfDay startDate) we) minD)"
    using findFreeSlots_single_day [OF _ _ _ wf0] a by blast
  ultimately show ?thesis
    using day_slots_zero_duration [OF ord _ zero] a by (simp add: day_slots_def)
  qed
  from one two three show ?thesis by blast
qed

theorem zero_duration_events_witness:
  "detectConflicts (\<lambda>k. 1767225600000)
     [timed_event ''z'' 43200000 43200000, timed_event ''m'' 39600000 46800000] \<noteq> []
   \<and> detectConflicts (\<lambda>k. 1767225600000)
     [timed_event ''z'' 43200000 43200000, timed_event ''y'' 43200000 43200000] = []
   \<and> findFreeSlots [timed_event ''z'' 43200000 43200000] 36000000 50000000
        \<lparr>wh_start = ''09:00'', wh_end = ''17:00''\<rparr> 30
      = Some [\<lparr>fs_start = 32400000, fs_end = 43200000, fs_duration = 180\<rparr>,
              \<lparr>fs_start = 43200000, fs_end = 61200000, fs_duration = 300\<rparr>]
   \<and> findFreeSlots [] 36000000 50000000 \<lparr>wh_start = ''09:00'', wh_end = ''17:00''\<rparr> 30
      = Some [\<lparr>fs_start = 32400000, fs_end = 61200000, fs_duration = 480\<rparr>]"
proof -
  let ?now = "\<lambda>k::nat. 1767225600000 :: nat"
  let ?z = "timed_event ''z'' 43200000 43200000"
  let ?y = "timed_event ''y'' 43200000 43200000"
  let ?m = "timed_event ''m'' 39600000 46800000"
  let ?w = "\<lparr>wh_start = ''09:00'', wh_end = ''17:00''\<rparr>"
  have zero: "ev_start ?z = ev_end ?z"
    by (simp add: timed_event_def)
  have h1: "ev_id ?z \<noteq> ev_id ?m \<and> ev_start ?m \<le> ev_end ?m"
    by (simp add: timed_event_def)
  have first: "detectConflicts ?now [?z, ?m] \<noteq> []"
    using zero_duration_events [OF zero, where B = ?m and now = ?now,
        THEN conjunct1, THEN mp, OF h1]
    by (simp add: timed_event_def isAllDay_def)
  have h2: "ev_id ?z \<noteq> ev_id ?y \<and> ev_start ?y = ev_end ?y"
    by (simp add: timed_event_def)
  have second: "detectConflicts ?now [?z, ?y] = []"
    using zero_duration_events [OF zero, where B = ?y and now = ?now,
        THEN conjunct2, THEN conjunct1, THEN mp, OF h2] .
  have sod: "startOfDay 36000000 = 0" "startOfDay 50000000 = 0"
    by (simp_all add: startOfDay_def millisecondsInDay_def)
  have h3: "split_hour_min (wh_start ?w) = Some (9, 0)
      \<and> split_hour_min (wh_end ?w) = Some (17, 0)
      \<and> window_at 0 (9, 0) \<le> window_at 0 (17, 0)
      \<and> startOfDay 36000000 = startOfDay 50000000 \<and> \<not> isAllDay ?z"
    by (simp add: split_hour_min_9_17 window_at_def millisecondsInHour_def
          timed_event_def isAllDay_def sod)
  have third: "findFreeSlots [?z] 36000000 50000000 ?w 30
      = Some [\<lparr>fs_start = 32400000, fs_end = 43200000, fs_duration = 180\<rparr>,
              \<lparr>fs_start = 43200000, fs_end = 61200000, fs_duration = 300\<rparr>]
     \<and> findFreeSlots [] 36000000 50000000 ?w 30
      = Some [\<lparr>fs_start = 32400000, fs_end = 61200000, fs_duration = 480\<rparr>]"
    using zero_duration_events [OF zero, where wh = ?w and ws = "(9, 0)" and we = "(17, 0)"
        and startDate = 36000000 and endDate = 50000000 and minD = 30,
        THEN conjunct2, THEN conjunct2, THEN mp, OF h3]
    by (simp add: sod timed_event_def window_at_def millisecondsInHour_def
          millisecondsInMinute_def gap_slot_def clamp_to_window_def differenceInMinutes_def)
  from first second third show ?thesis by simp
qed

text \<open>
  Two zero-duration events at the same instant (also the same event twice) give no
  conflict; a zero-duration event at noon inside an event from 11:00 to 13:00 gives one;
  and a zero-duration event at noon turns the free window 09:00 to 17:00 into two slots.
\<close>

lemma zero_duration_slots:
  "findFreeSlots [timed_event ''z'' 43200000 43200000] 36000000 50000000
        \<lparr>wh_start = ''09:00'', wh_end = ''17:00''\<rparr> 30
      = Some [\<lparr>fs_start = 32400000, fs_end = 43200000, fs_duration = 180\<rparr>,
              \<lparr>fs_start = 43200000, fs_end = 61200000, fs_duration = 300\<rparr>]"
proof -
  have sod: "startOfDay 36000000 = startOfDay 50000000" "startOfDay 36000000 = 0"
    by (simp_all add: startOfDay_def millisecondsInDay_def)
  have wf: "\<forall>e \<in> set [timed_event ''z'' 43200000 43200000].
              \<not> isAllDay e \<longrightarrow> ev_start e \<le> ev_end e"
    by (simp add: timed_event_def)
  have ord: "window_at 0 (9, 0) \<le> window_at 0 (17, 0)"
    by (simp add: window_at_def millisecondsInHour_def)
  show ?thesis
    using findFreeSlots_single_day [where wh = "\<lparr>wh_start = ''09:00'', wh_end = ''17:00''\<rparr>"
        and minD = 30, OF _ _ ord wf sod(1)]
    by (simp add: split_hour_min_9_17 sod(2) day_slots_def relevant_def timed_event_def
          isAllDay_def window_at_def millisecondsInHour_def millisecondsInMinute_def
          gap_slot_def clamp_to_window_def differenceInMinutes_def)
qed

lemma no_event_slots:
  "findFreeSlots [] 36000000 50000000 \<lparr>wh_start = ''09:00'', wh_end = ''17:00''\<rparr> 30
      = Some [\<lparr>fs_start = 32400000, fs_end = 61200000, fs_duration = 480\<rparr>]"
proof -
  have sod: "startOfDay 36000000 = startOfDay 50000000" "startOfDay 36000000 = 0"
    by (simp_all add: startOfDay_def millisecondsInDay_def)
  have wf: "\<forall>e \<in> set []. \<not> isAllDay e \<longrightarrow> ev_start e \<le> ev_end e"
    by simp
  have ord: "window_at 0 (9, 0) \<le> window_at 0 (17, 0)"
    by (simp add: window_at_def millisecondsInHour_def)
  show ?thesis
    using findFreeSlots_single_day [where wh = "\<lparr>wh_start = ''09:00'', wh_end = ''17:00''\<rparr>"
        and minD = 30, OF _ _ ord wf sod(1)]
    by (simp add: split_hour_min_9_17 sod(2) day_slots_def
          window_at_def millisecondsInHour_def millisecondsInMinute_def
          gap_slot_def differenceInMinutes_def)
qed

theorem zero_duration_counterexample:
  "detectConflicts (\<lambda>k. 1767225600000)
     [timed_event ''z'' 43200000 43200000, timed_event ''y'' 43200000 43200000] = []
   \<and> detectConflicts (\<lambda>k. 1767225600000)
     [timed_event ''z'' 43200000 43200000, timed_event ''z'' 43200000 43200000] = []
   \<and> detectConflicts (\<lambda>k. 1767225600000)
     [timed_event ''z'' 43200000 43200000, timed_event ''m'' 39600000 46800000]
     = [\<lparr>c_id = ''conflict-1767225600000-0'', c_events = [''m'', ''z''],
         c_type = Overlap, c_severity = Low\<rparr>]
   \<and> findFreeSlots [timed_event ''z'' 43200000 43200000] 36000000 50000000
        \<lparr>wh_start = ''09:00'', wh_end = ''17:00''\<rparr> 30
      = Some [\<lparr>fs_start = 32400000, fs_end = 43200000, fs_duration = 180\<rparr>,
              \<lparr>fs_start = 43200000, fs_end = 61200000, fs_duration = 300\<rparr>]
   \<and> findFreeSlots [] 36000000 50000000 \<lparr>wh_start = ''09:00'', wh_end = ''17:00''\<rparr> 30
      = Some [\<lparr>fs_start = 32400000, fs_end = 61200000, fs_duration = 480\<rparr>]"
proof -
  have "detectConflicts (\<lambda>k. 1767225600000)
     [timed_event ''z'' 43200000 43200000, timed_event ''y'' 43200000 43200000] = []"
    by (simp add: detectConflicts_def timed_event_def isAllDay_def Let_def
        areIntervalsOverlapping_def)
  moreover have "detectConflicts (\<lambda>k. 1767225600000)
     [timed_event ''z'' 43200000 43200000, timed_event ''z'' 43200000 43200000] = []"
    by (simp add: detectConflicts_def timed_event_def isAllDay_def Let_def
        areIntervalsOverlapping_def)
  moreover have "detectConflicts (\<lambda>k. 1767225600000)
     [timed_event ''z'' 43200000 43200000, timed_event ''m'' 39600000 46800000]
     = [\<lparr>c_id = ''conflict-1767225600000-0'', c_events = [''m'', ''z''],
         c_type = Overlap, c_severity = Low\<rparr>]"
    by (simp add: detectConflicts_def timed_event_def isAllDay_def Let_def
        areIntervalsOverlapping_def track_conflict_def map_has_def map_set_def
        map_get_add_def set_add_def map_get_def string_of_nat.simps digit_char_def)
  ultimately show ?thesis
    using zero_duration_slots no_event_slots by simp
qed

end
